theory Spec2Isabelle
  imports Main "HOL-Library.Sublist"
begin


section \<open>Strings\<close>

text \<open>
  A Python \<^verbatim>\<open>str\<close> is a sequence of code points. The model keeps the code points
  U+0000 to U+00FF: a \<^typ>\<open>char\<close> holds one code point, \<^term>\<open>of_char c\<close> is its
  number and \<^typ>\<open>string\<close> is the sequence. On this range \<^verbatim>\<open>str.lower()\<close> maps
  the upper-case letters A-Z, U+00C0-U+00D6 and U+00D8-U+00DE to the code point 32
  above and leaves every other character alone, and \<^verbatim>\<open>str.strip()\<close> removes the
  white space of \<^verbatim>\<open>str.isspace\<close> from both ends.
\<close>

definition is_upper :: "char \<Rightarrow> bool" where
  "is_upper c =
     (let n = (of_char c :: nat)
      in (65 \<le> n \<and> n \<le> 90) \<or> (192 \<le> n \<and> n \<le> 214) \<or> (216 \<le> n \<and> n \<le> 222))"

definition lower_char :: "char \<Rightarrow> char" where
  "lower_char c = (if is_upper c then char_of ((of_char c :: nat) + 32) else c)"

definition lower :: "string \<Rightarrow> string" where
  "lower s = map lower_char s"

definition is_space :: "char \<Rightarrow> bool" where
  "is_space c =
     (let n = (of_char c :: nat)
      in (9 \<le> n \<and> n \<le> 13) \<or> (28 \<le> n \<and> n \<le> 32) \<or> n = 133 \<or> n = 160)"

definition lstrip :: "string \<Rightarrow> string" where
  "lstrip s = dropWhile is_space s"

definition rstrip :: "string \<Rightarrow> string" where
  "rstrip s = rev (dropWhile is_space (rev s))"

definition strip :: "string \<Rightarrow> string" where
  "strip s = rstrip (lstrip s)"

text \<open>\<^verbatim>\<open>a in b\<close> on two strings: \<open>a\<close> occurs in \<open>b\<close> as a contiguous run.\<close>

definition str_in :: "string \<Rightarrow> string \<Rightarrow> bool" where
  "str_in a b = sublist a b"

text \<open>\<^verbatim>\<open>str(n)\<close> of a non-negative integer: its decimal digits.\<close>

definition digit_char :: "nat \<Rightarrow> char" where
  "digit_char d = char_of (48 + d)"

function str_nat :: "nat \<Rightarrow> string" where
  "str_nat n = (if n < 10 then [digit_char n] else str_nat (n div 10) @ [digit_char (n mod 10)])"
  by pat_completeness auto
termination
  by (relation "measure id") auto

declare str_nat.simps [simp del]

definition str_int :: "int \<Rightarrow> string" where
  "str_int i = (if i < 0 then CHR ''-'' # str_nat (nat (- i)) else str_nat (nat i))"

section \<open>The data model\<close>

text \<open>
  The workbook dictionary that \<^verbatim>\<open>process_excel_file\<close> builds and the search reads.
  A Python \<^verbatim>\<open>dict\<close> keeps its keys in insertion order, so \<open>sheets\<close> is an association
  list from sheet name to sheet; \<open>dict_keys_ok\<close> says that no key occurs twice.
\<close>

record sheet_info =
  data :: "string list list"
  columns :: "string list"
  rows :: int

record workbook =
  sheets :: "(string \<times> sheet_info) list"
  upload_time :: string
  filename :: string
  file_size :: int
  total_rows :: int

definition dict_keys_ok :: "('k \<times> 'v) list \<Rightarrow> bool" where
  "dict_keys_ok d = distinct (map fst d)"

text \<open>One entry of the result list of the search.\<close>

record match =
  sheet :: string
  row :: int
  column :: string
  cell_value :: string
  match_type :: string

section \<open>The search\<close>

text \<open>
  \<^verbatim>\<open>search_link_in_workbook\<close>: three nested loops that append to \<open>results\<close>. Each loop
  is a recursive function over what is left to visit, with the running index of
  \<^verbatim>\<open>enumerate\<close> and the result list so far as arguments. Every cell of a workbook is a
  string, on which \<^verbatim>\<open>str\<close> is the identity.
\<close>

definition col_name :: "string list \<Rightarrow> nat \<Rightarrow> string" where
  "col_name cols col_idx =
     (if col_idx < length cols then cols ! col_idx else ''Column_'' @ str_nat (col_idx + 1))"

definition make_match :: "string \<Rightarrow> string \<Rightarrow> string list \<Rightarrow> nat \<Rightarrow> nat \<Rightarrow> string \<Rightarrow> match" where
  "make_match search_term_lower sheet_name cols row_idx col_idx cv =
     \<lparr>sheet = sheet_name,
      row = int row_idx + 2,
      column = col_name cols col_idx,
      cell_value = cv,
      match_type = (if search_term_lower = lower cv then ''Exact'' else ''Partial'')\<rparr>"

fun scan_row :: "string \<Rightarrow> string \<Rightarrow> string list \<Rightarrow> nat \<Rightarrow> nat \<Rightarrow> string list \<Rightarrow> match list \<Rightarrow> match list" where
  "scan_row q sheet_name cols row_idx col_idx [] results = results"
| "scan_row q sheet_name cols row_idx col_idx (cv # rest) results =
     scan_row q sheet_name cols row_idx (col_idx + 1) rest
       (if str_in q (lower cv)
        then results @ [make_match q sheet_name cols row_idx col_idx cv]
        else results)"

fun scan_sheet :: "string \<Rightarrow> string \<Rightarrow> string list \<Rightarrow> nat \<Rightarrow> string list list \<Rightarrow> match list \<Rightarrow> match list" where
  "scan_sheet q sheet_name cols row_idx [] results = results"
| "scan_sheet q sheet_name cols row_idx (r # rest) results =
     scan_sheet q sheet_name cols (row_idx + 1) rest (scan_row q sheet_name cols row_idx 0 r results)"

fun scan_sheets :: "string \<Rightarrow> (string \<times> sheet_info) list \<Rightarrow> match list \<Rightarrow> match list" where
  "scan_sheets q [] results = results"
| "scan_sheets q ((sheet_name, info) # rest) results =
     scan_sheets q rest (scan_sheet q sheet_name (columns info) 0 (data info) results)"

definition search_link_in_workbook :: "workbook \<Rightarrow> string \<Rightarrow> match list" where
  "search_link_in_workbook workbook_data search_term =
     (let results = [];
          search_term_lower = strip (lower search_term)
      in if search_term_lower = [] then results
         else scan_sheets search_term_lower (sheets workbook_data) results)"

definition row_hits :: "string \<Rightarrow> string \<Rightarrow> string list \<Rightarrow> nat \<Rightarrow> nat \<Rightarrow> string list \<Rightarrow> match list" where
  "row_hits q sheet_name cols row_idx col_idx r =
     map (\<lambda>(c, cv). make_match q sheet_name cols row_idx c cv)
       (filter (\<lambda>(c, cv). str_in q (lower cv)) (enumerate col_idx r))"

definition sheet_hits :: "string \<Rightarrow> string \<Rightarrow> string list \<Rightarrow> nat \<Rightarrow> string list list \<Rightarrow> match list" where
  "sheet_hits q sheet_name cols row_idx rs =
     concat (map (\<lambda>(r, cells). row_hits q sheet_name cols r 0 cells) (enumerate row_idx rs))"

definition workbook_hits :: "string \<Rightarrow> (string \<times> sheet_info) list \<Rightarrow> match list" where
  "workbook_hits q shs =
     concat (map (\<lambda>(sheet_name, info). sheet_hits q sheet_name (columns info) 0 (data info)) shs)"

definition sheet_name_at :: "workbook \<Rightarrow> nat \<Rightarrow> string" where
  "sheet_name_at wb i = fst (sheets wb ! i)"

definition sheet_at :: "workbook \<Rightarrow> nat \<Rightarrow> sheet_info" where
  "sheet_at wb i = snd (sheets wb ! i)"

definition cell_at :: "workbook \<Rightarrow> nat \<times> nat \<times> nat \<Rightarrow> string" where
  "cell_at wb p = (case p of (i, r, c) \<Rightarrow> data (sheet_at wb i) ! r ! c)"

definition all_cells :: "workbook \<Rightarrow> (nat \<times> nat \<times> nat) list" where
  "all_cells wb =
     [(i, r, c). i \<leftarrow> [0..<length (sheets wb)],
                 r \<leftarrow> [0..<length (data (sheet_at wb i))],
                 c \<leftarrow> [0..<length (data (sheet_at wb i) ! r)]]"

definition is_hit :: "string \<Rightarrow> workbook \<Rightarrow> nat \<times> nat \<times> nat \<Rightarrow> bool" where
  "is_hit q wb p = str_in q (lower (cell_at wb p))"

definition match_at :: "string \<Rightarrow> workbook \<Rightarrow> nat \<times> nat \<times> nat \<Rightarrow> match" where
  "match_at q wb p =
     (case p of (i, r, c) \<Rightarrow>
        make_match q (sheet_name_at wb i) (columns (sheet_at wb i)) r c (cell_at wb p))"

section \<open>JSON text\<close>

text \<open>
  The values that \<^verbatim>\<open>json.dump\<close> writes and \<^verbatim>\<open>json.load\<close> returns: \<^verbatim>\<open>None\<close>, booleans,
  integers, strings, lists, and dictionaries with string keys in insertion order.
  Floating-point numbers and strings with a code point above U+00FF are not
  represented.
\<close>

datatype json =
    JNull
  | JBool bool
  | JInt int
  | JStr string
  | JList "json list"
  | JDict "(string \<times> json) list"

text \<open>\<^verbatim>\<open>d[k] = v\<close> and \<^verbatim>\<open>dict(pairs)\<close>: a key that is present keeps its place.\<close>

fun dict_set :: "('k \<times> 'v) list \<Rightarrow> 'k \<Rightarrow> 'v \<Rightarrow> ('k \<times> 'v) list" where
  "dict_set [] k v = [(k, v)]"
| "dict_set ((k', v') # d) k v = (if k' = k then (k, v) # d else (k', v') # dict_set d k v)"

definition dict_of_pairs :: "('k \<times> 'v) list \<Rightarrow> ('k \<times> 'v) list" where
  "dict_of_pairs pairs = foldl (\<lambda>d (k, v). dict_set d k v) [] pairs"

subsection \<open>Writing\<close>

text \<open>
  \<^verbatim>\<open>json.dump\<close> with its default arguments: items separated by a comma and a space,
  key and value by a colon and a space, and \<^verbatim>\<open>ensure_ascii\<close>, which writes the
  characters from the space to the tilde as they are, except the double quote (34) and
  the backslash (92), and every other character as an escape.
\<close>

definition hex_digit :: "nat \<Rightarrow> char" where
  "hex_digit d = (if d < 10 then char_of (48 + d) else char_of (87 + d))"

definition escape_char :: "char \<Rightarrow> string" where
  "escape_char c =
     (let n = (of_char c :: nat)
      in if n = 34 then [CHR 0x5C, CHR 0x22]
         else if n = 92 then [CHR 0x5C, CHR 0x5C]
         else if n = 10 then [CHR 0x5C, CHR ''n'']
         else if n = 13 then [CHR 0x5C, CHR ''r'']
         else if n = 9 then [CHR 0x5C, CHR ''t'']
         else if n = 8 then [CHR 0x5C, CHR ''b'']
         else if n = 12 then [CHR 0x5C, CHR ''f'']
         else if 32 \<le> n \<and> n \<le> 126 then [c]
         else [CHR 0x5C, CHR ''u'', CHR ''0'', CHR ''0'', hex_digit (n div 16), hex_digit (n mod 16)])"

definition encode_string :: "string \<Rightarrow> string" where
  "encode_string s = CHR 0x22 # concat (map escape_char s) @ [CHR 0x22]"

fun join :: "string \<Rightarrow> string list \<Rightarrow> string" where
  "join sep [] = []"
| "join sep [x] = x"
| "join sep (x # y # ys) = x @ sep @ join sep (y # ys)"

fun json_dumps :: "json \<Rightarrow> string" where
  "json_dumps JNull = ''null''"
| "json_dumps (JBool b) = (if b then ''true'' else ''false'')"
| "json_dumps (JInt i) = str_int i"
| "json_dumps (JStr s) = encode_string s"
| "json_dumps (JList xs) = ''['' @ join '', '' (map json_dumps xs) @ '']''"
| "json_dumps (JDict d) =
     ''{'' @ join '', '' (map (\<lambda>(k, v). encode_string k @ '': '' @ json_dumps v) d) @ ''}''"

subsection \<open>Reading\<close>

text \<open>
  \<^verbatim>\<open>json.load\<close>: the decoder of the standard library, in its strict mode. Each function
  returns the value it read and the text after it, or \<open>None\<close> where the decoder
  raises. A text that denotes a value outside \<^typ>\<open>json\<close> (a number with a fraction or an
  exponent, \<^verbatim>\<open>NaN\<close>, \<^verbatim>\<open>Infinity\<close>, a \<^verbatim>\<open>\u\<close> escape above U+00FF) is outside the
  model; the functions return \<open>None\<close> on it as well.
\<close>

definition is_ws :: "char \<Rightarrow> bool" where
  "is_ws c = (c = CHR '' '' \<or> c = CHR 0x09 \<or> c = CHR 0x0A \<or> c = CHR 0x0D)"

definition skip_ws :: "string \<Rightarrow> string" where
  "skip_ws cs = dropWhile is_ws cs"

definition is_digit :: "char \<Rightarrow> bool" where
  "is_digit c = (48 \<le> (of_char c :: nat) \<and> (of_char c :: nat) \<le> 57)"

definition digit_val :: "char \<Rightarrow> nat" where
  "digit_val c = of_char c - 48"

definition nat_of_digits :: "string \<Rightarrow> nat" where
  "nat_of_digits ds = foldl (\<lambda>acc c. 10 * acc + digit_val c) 0 ds"

definition hex_val :: "char \<Rightarrow> nat option" where
  "hex_val c =
     (let n = (of_char c :: nat)
      in if 48 \<le> n \<and> n \<le> 57 then Some (n - 48)
         else if 97 \<le> n \<and> n \<le> 102 then Some (n - 87)
         else if 65 \<le> n \<and> n \<le> 70 then Some (n - 55)
         else None)"

text \<open>The four hexadecimal digits of a \<^verbatim>\<open>\u\<close> escape.\<close>

definition decode_uXXXX :: "string \<Rightarrow> (char \<times> string) option" where
  "decode_uXXXX cs =
     (case cs of
        a # b # c # d # rest \<Rightarrow>
          (case (hex_val a, hex_val b, hex_val c, hex_val d) of
             (Some x3, Some x2, Some x1, Some x0) \<Rightarrow>
               (let n = ((x3 * 16 + x2) * 16 + x1) * 16 + x0
                in if n < 256 then Some (char_of n, rest) else None)
           | _ \<Rightarrow> None)
      | _ \<Rightarrow> None)"

definition unescape :: "char \<Rightarrow> char option" where
  "unescape e =
     (if e = CHR 0x22 then Some (CHR 0x22)
      else if e = CHR 0x5C then Some (CHR 0x5C)
      else if e = CHR ''/'' then Some (CHR ''/'')
      else if e = CHR ''b'' then Some (CHR 0x08)
      else if e = CHR ''f'' then Some (CHR 0x0C)
      else if e = CHR ''n'' then Some (CHR 0x0A)
      else if e = CHR ''r'' then Some (CHR 0x0D)
      else if e = CHR ''t'' then Some (CHR 0x09)
      else None)"

definition scanned :: "char \<Rightarrow> (string \<times> string) option \<Rightarrow> (string \<times> string) option" where
  "scanned c r = (case r of None \<Rightarrow> None | Some (s, rest) \<Rightarrow> Some (c # s, rest))"

text \<open>
  \<^verbatim>\<open>scanstring\<close>, from the character after the opening quote. The recursion on the text
  after an escape is on \<open>drop\<close> of the text, which the termination proof needs.
\<close>

function scanstring :: "string \<Rightarrow> (string \<times> string) option" where
  "scanstring [] = None"
| "scanstring (c # cs) =
     (if c = CHR 0x22 then Some ([], cs)
      else if c = CHR 0x5C then
        (case cs of
           [] \<Rightarrow> None
         | e # cs' \<Rightarrow>
             if e = CHR ''u'' then
               (case decode_uXXXX cs' of
                  None \<Rightarrow> None
                | Some (ch, _) \<Rightarrow> scanned ch (scanstring (drop 4 cs')))
             else
               (case unescape e of
                  None \<Rightarrow> None
                | Some ch \<Rightarrow> scanned ch (scanstring cs')))
      else if (of_char c :: nat) < 32 then None
      else scanned c (scanstring cs))"
  by pat_completeness auto
termination
  by (relation "measure length") auto

text \<open>
  A number: the match of \<^verbatim>\<open>(-?(?:0|[1-9]\d*))(\.\d+)?([eE][-+]?\d+)?\<close>. With a fraction
  or an exponent it is a float.
\<close>

definition has_frac :: "string \<Rightarrow> bool" where
  "has_frac cs = (case cs of c # d # _ \<Rightarrow> c = CHR ''.'' \<and> is_digit d | _ \<Rightarrow> False)"

definition has_exp :: "string \<Rightarrow> bool" where
  "has_exp cs =
     (case cs of
        e # d # rest \<Rightarrow>
          (e = CHR ''e'' \<or> e = CHR ''E'') \<and>
          (is_digit d \<or> ((d = CHR ''+'' \<or> d = CHR ''-'') \<and> (case rest of d' # _ \<Rightarrow> is_digit d' | [] \<Rightarrow> False)))
      | _ \<Rightarrow> False)"

definition int_literal :: "string \<Rightarrow> (nat \<times> string) option" where
  "int_literal cs =
     (case cs of
        [] \<Rightarrow> None
      | c # rest \<Rightarrow>
          if c = CHR ''0'' then Some (0, rest)
          else if is_digit c then Some (nat_of_digits (takeWhile is_digit cs), dropWhile is_digit cs)
          else None)"

definition match_number :: "string \<Rightarrow> (json \<times> string) option" where
  "match_number cs =
     (let negative = (case cs of c # _ \<Rightarrow> c = CHR ''-'' | [] \<Rightarrow> False)
      in case int_literal (if negative then tl cs else cs) of
           None \<Rightarrow> None
         | Some (n, rest) \<Rightarrow>
             if has_frac rest \<or> has_exp rest then None
             else Some (JInt (if negative then - int n else int n), rest))"

text \<open>
  \<^verbatim>\<open>scan_once\<close>, \<^verbatim>\<open>JSONArray\<close> and \<^verbatim>\<open>JSONObject\<close>. The first argument bounds the number
  of nested calls; \<open>json_loads\<close> starts with more than the length of the text, and every
  call that returns has read at least one character.
\<close>

fun scan_once :: "nat \<Rightarrow> string \<Rightarrow> (json \<times> string) option"
  and scan_array :: "nat \<Rightarrow> string \<Rightarrow> json list \<Rightarrow> (json list \<times> string) option"
  and scan_object :: "nat \<Rightarrow> string \<Rightarrow> (string \<times> json) list \<Rightarrow> ((string \<times> json) list \<times> string) option"
where
  "scan_once 0 cs = None"
| "scan_once (Suc n) cs =
     (case cs of
        [] \<Rightarrow> None
      | c # rest \<Rightarrow>
          if c = CHR 0x22 then
            (case scanstring rest of None \<Rightarrow> None | Some (s, rest') \<Rightarrow> Some (JStr s, rest'))
          else if c = CHR ''{'' then
            (case skip_ws rest of
               [] \<Rightarrow> None
             | c' # rest' \<Rightarrow>
                 if c' = CHR ''}'' then Some (JDict [], rest')
                 else if c' = CHR 0x22 then
                   (case scan_object n rest' [] of
                      None \<Rightarrow> None
                    | Some (pairs, rest'') \<Rightarrow> Some (JDict (dict_of_pairs pairs), rest''))
                 else None)
          else if c = CHR ''['' then
            (case skip_ws rest of
               [] \<Rightarrow> None
             | c' # rest' \<Rightarrow>
                 if c' = CHR '']'' then Some (JList [], rest')
                 else
                   (case scan_array n (c' # rest') [] of
                      None \<Rightarrow> None
                    | Some (vs, rest'') \<Rightarrow> Some (JList vs, rest'')))
          else if take 4 cs = ''null'' then Some (JNull, drop 4 cs)
          else if take 4 cs = ''true'' then Some (JBool True, drop 4 cs)
          else if take 5 cs = ''false'' then Some (JBool False, drop 5 cs)
          else match_number cs)"
| "scan_array 0 cs vs = None"
| "scan_array (Suc n) cs vs =
     (case scan_once n cs of
        None \<Rightarrow> None
      | Some (v, rest) \<Rightarrow>
          (case skip_ws rest of
             [] \<Rightarrow> None
           | c # rest' \<Rightarrow>
               if c = CHR '']'' then Some (vs @ [v], rest')
               else if c = CHR '','' then scan_array n (skip_ws rest') (vs @ [v])
               else None))"
| "scan_object 0 cs pairs = None"
| "scan_object (Suc n) cs pairs =
     (case scanstring cs of
        None \<Rightarrow> None
      | Some (key, rest) \<Rightarrow>
          (case skip_ws rest of
             [] \<Rightarrow> None
           | c # rest1 \<Rightarrow>
               if c \<noteq> CHR '':'' then None
               else
                 (case scan_once n (skip_ws rest1) of
                    None \<Rightarrow> None
                  | Some (v, rest2) \<Rightarrow>
                      (case skip_ws rest2 of
                         [] \<Rightarrow> None
                       | c' # rest3 \<Rightarrow>
                           if c' = CHR ''}'' then Some (pairs @ [(key, v)], rest3)
                           else if c' = CHR '','' then
                             (case skip_ws rest3 of
                                [] \<Rightarrow> None
                              | c'' # rest4 \<Rightarrow>
                                  if c'' = CHR 0x22 then scan_object n rest4 (pairs @ [(key, v)])
                                  else None)
                           else None))))"

definition json_loads :: "string \<Rightarrow> json option" where
  "json_loads s =
     (let cs = skip_ws s
      in case scan_once (Suc (length cs)) cs of
           None \<Rightarrow> None
         | Some (v, rest) \<Rightarrow> if skip_ws rest = [] then Some v else None)"

section \<open>The snapshot store\<close>

text \<open>
  The workbook dictionary as the value that is written: the keys in the order in which
  \<^verbatim>\<open>process_excel_file\<close> inserts them.
\<close>

definition sheet_json :: "sheet_info \<Rightarrow> json" where
  "sheet_json info =
     JDict [(''data'', JList (map (\<lambda>r. JList (map JStr r)) (data info))),
            (''columns'', JList (map JStr (columns info))),
            (''rows'', JInt (rows info))]"

definition workbook_json :: "workbook \<Rightarrow> json" where
  "workbook_json wb =
     JDict [(''sheets'', JDict (map (\<lambda>(sheet_name, info). (sheet_name, sheet_json info)) (sheets wb))),
            (''upload_time'', JStr (upload_time wb)),
            (''filename'', JStr (filename wb)),
            (''file_size'', JInt (file_size wb)),
            (''total_rows'', JInt (total_rows wb))]"

text \<open>
  The file \<^verbatim>\<open>workbook_data.json\<close> is \<open>None\<close> when it does not exist and \<open>Some text\<close>
  when it holds \<open>text\<close>. What the operating system does at a call is the environment
  of the call: whether the file can be opened and read, whether it can be opened for
  writing, and how many characters reach the file before a write raises (\<open>None\<close>: all
  of them).
\<close>

record io_env =
  can_read :: bool
  can_open_write :: bool
  write_room :: "nat option"

datatype io_error = Open_error | Write_error

datatype notice = Removing_old_workbook json

text \<open>
  \<^verbatim>\<open>load_workbook_data\<close>. Python's \<^verbatim>\<open>None\<close> is \<open>JNull\<close>; every exception of the
  \<^verbatim>\<open>try\<close> block ends in \<^verbatim>\<open>return None\<close>.
\<close>

definition load_workbook_data :: "io_env \<Rightarrow> string option \<Rightarrow> json" where
  "load_workbook_data io file =
     (case file of
        None \<Rightarrow> JNull
      | Some text \<Rightarrow>
          if \<not> can_read io then JNull
          else (case json_loads text of None \<Rightarrow> JNull | Some v \<Rightarrow> v))"

text \<open>The truth value of a Python object.\<close>

fun truthy :: "json \<Rightarrow> bool" where
  "truthy JNull = False"
| "truthy (JBool b) = b"
| "truthy (JInt i) = (i \<noteq> 0)"
| "truthy (JStr s) = (s \<noteq> [])"
| "truthy (JList xs) = (xs \<noteq> [])"
| "truthy (JDict d) = (d \<noteq> [])"

text \<open>
  The \<^verbatim>\<open>try\<close> block of \<^verbatim>\<open>save_workbook_data\<close> on the old data: the message it shows.
  On a list or a string \<^verbatim>\<open>old_data['filename']\<close> raises, on a number
  \<^verbatim>\<open>'filename' in old_data\<close> raises, and \<^verbatim>\<open>except: pass\<close> drops the exception.
\<close>

definition old_workbook_notice :: "json \<Rightarrow> notice list" where
  "old_workbook_notice old_data =
     (if truthy old_data then
        (case old_data of
           JDict d \<Rightarrow>
             (case map_of d ''filename'' of
                Some v \<Rightarrow> [Removing_old_workbook v]
              | None \<Rightarrow> [])
         | _ \<Rightarrow> [])
      else [])"

text \<open>
  \<^verbatim>\<open>save_workbook_data\<close>: the exception that leaves the function if any, the messages
  shown, and the file afterwards. \<^verbatim>\<open>open(DATA_FILE, 'w')\<close> empties the file before
  \<^verbatim>\<open>json.dump\<close> writes; nothing catches an exception of either.
\<close>

record save_result =
  raised :: "io_error option"
  shown :: "notice list"
  file_after :: "string option"

definition save_workbook_data :: "io_env \<Rightarrow> json \<Rightarrow> string option \<Rightarrow> save_result" where
  "save_workbook_data io new_data file =
     (let messages = (if file \<noteq> None then old_workbook_notice (load_workbook_data io file) else []);
          text = json_dumps new_data
      in if \<not> can_open_write io then
           \<lparr>raised = Some Open_error, shown = messages, file_after = file\<rparr>
         else
           (case write_room io of
              None \<Rightarrow> \<lparr>raised = None, shown = messages, file_after = Some text\<rparr>
            | Some k \<Rightarrow>
                if length text \<le> k then \<lparr>raised = None, shown = messages, file_after = Some text\<rparr>
                else \<lparr>raised = Some Write_error, shown = messages, file_after = Some (take k text)\<rparr>))"

section \<open>Ingestion\<close>

text \<open>
  A cell of a data frame as \<^verbatim>\<open>row[col]\<close> returns it: a missing value (\<^verbatim>\<open>None\<close>, NaN,
  NaT), a string, an integer, a boolean, or a value of another type (a float, a time
  stamp), which is given by the text \<^verbatim>\<open>str\<close> returns for it.
\<close>

datatype raw_cell =
    Cell_na
  | Cell_str string
  | Cell_int int
  | Cell_bool bool
  | Cell_obj string

definition notna :: "raw_cell \<Rightarrow> bool" where
  "notna v = (v \<noteq> Cell_na)"

fun py_str :: "raw_cell \<Rightarrow> string" where
  "py_str Cell_na = ''nan''"
| "py_str (Cell_str s) = s"
| "py_str (Cell_int i) = str_int i"
| "py_str (Cell_bool b) = (if b then ''True'' else ''False'')"
| "py_str (Cell_obj s) = s"

text \<open>
  A row of \<^verbatim>\<open>df.iterrows()\<close> is a series, from column label to cell. \<^verbatim>\<open>row[col]\<close> is
  the cell of the one entry with that label; with no such entry it raises, and with
  several it is not a single cell and the test of \<^verbatim>\<open>pd.notna\<close> on it raises.
\<close>

type_synonym series = "(string \<times> raw_cell) list"

record data_frame =
  df_columns :: "string list"
  df_rows :: "series list"

definition series_get :: "series \<Rightarrow> string \<Rightarrow> raw_cell option" where
  "series_get r col = (case filter (\<lambda>(k, v). k = col) r of [(k, v)] \<Rightarrow> Some v | _ \<Rightarrow> None)"

text \<open>
  The uploaded file: its name, its size, and what \<^verbatim>\<open>pd.read_excel\<close> returns for it, the
  dictionary from sheet name to data frame, or \<open>None\<close> when it raises.
\<close>

record uploaded_file =
  upload_name :: string
  upload_size :: int
  read_excel :: "(string \<times> data_frame) list option"

text \<open>
  \<^verbatim>\<open>process_excel_file\<close>. The loops are recursive functions with the list built so far
  as an argument; an exception anywhere ends in \<^verbatim>\<open>return None\<close>. The first argument
  is the text of \<^verbatim>\<open>datetime.now()\<close>.
\<close>

fun stringify_row :: "series \<Rightarrow> string list \<Rightarrow> string list \<Rightarrow> string list option" where
  "stringify_row r [] row_data = Some row_data"
| "stringify_row r (col # cols) row_data =
     (case series_get r col of
        None \<Rightarrow> None
      | Some v \<Rightarrow> stringify_row r cols (row_data @ [if notna v then py_str v else '''']))"

fun stringify_rows :: "string list \<Rightarrow> series list \<Rightarrow> string list list \<Rightarrow> string list list option" where
  "stringify_rows cols [] sheet_data = Some sheet_data"
| "stringify_rows cols (r # rest) sheet_data =
     (case stringify_row r cols [] of
        None \<Rightarrow> None
      | Some row_data \<Rightarrow> stringify_rows cols rest (sheet_data @ [row_data]))"

fun process_sheets ::
  "(string \<times> data_frame) list \<Rightarrow> (string \<times> sheet_info) list \<Rightarrow> int \<Rightarrow> ((string \<times> sheet_info) list \<times> int) option" where
  "process_sheets [] shs row_total = Some (shs, row_total)"
| "process_sheets ((sheet_name, df) # rest) shs row_total =
     (case stringify_rows (df_columns df) (df_rows df) [] of
        None \<Rightarrow> None
      | Some sheet_data \<Rightarrow>
          process_sheets rest
            (dict_set shs sheet_name
               \<lparr>data = sheet_data, columns = df_columns df, rows = int (length (df_rows df))\<rparr>)
            (row_total + int (length (df_rows df))))"

definition process_excel_file :: "string \<Rightarrow> uploaded_file \<Rightarrow> workbook option" where
  "process_excel_file now up =
     (case read_excel up of
        None \<Rightarrow> None
      | Some excel_data \<Rightarrow>
          (case process_sheets excel_data [] 0 of
             None \<Rightarrow> None
           | Some (shs, row_total) \<Rightarrow>
               Some \<lparr>sheets = shs, upload_time = now, filename = upload_name up,
                     file_size = upload_size up, total_rows = row_total\<rparr>))"

text \<open>
  The stringification in the words of the specification: a missing cell becomes the
  empty string, any other cell its default text.
\<close>

definition cell_text :: "raw_cell \<Rightarrow> string" where
  "cell_text v = (if v = Cell_na then '''' else py_str v)"

definition sheet_of :: "data_frame \<Rightarrow> string list list \<Rightarrow> sheet_info" where
  "sheet_of df sheet_data =
     \<lparr>data = sheet_data, columns = df_columns df, rows = int (length (df_rows df))\<rparr>"

section \<open>Well-formed values\<close>

text \<open>
  A Python dictionary has no key twice. \<open>wf_json\<close> says so for every dictionary of a
  value; \<open>need\<close> is a number of nested calls that suffices to read the value back.
\<close>

fun wf_json :: "json \<Rightarrow> bool" where
  "wf_json (JList xs) = (\<forall>x \<in> set xs. wf_json x)"
| "wf_json (JDict d) = (distinct (map fst d) \<and> (\<forall>p \<in> set d. wf_json (snd p)))"
| "wf_json v = True"

fun need :: "json \<Rightarrow> nat" where
  "need (JList xs) = Suc (sum_list (map (\<lambda>x. Suc (need x)) xs))"
| "need (JDict d) = Suc (sum_list (map (\<lambda>p. Suc (need (snd p))) d))"
| "need v = Suc 0"

definition value_start :: "char \<Rightarrow> bool" where
  "value_start c =
     (is_digit c \<or> c = CHR ''-'' \<or> c = CHR ''n'' \<or> c = CHR ''t'' \<or> c = CHR ''f''
      \<or> c = CHR 0x22 \<or> c = CHR ''['' \<or> c = CHR ''{'')"

definition follow_ok :: "string \<Rightarrow> bool" where
  "follow_ok rest = (case rest of [] \<Rightarrow> True | c # _ \<Rightarrow> c = CHR '','' \<or> c = CHR '']'' \<or> c = CHR ''}'')"

definition no_digit :: "string \<Rightarrow> bool" where
  "no_digit rest = (case rest of [] \<Rightarrow> True | c # _ \<Rightarrow> \<not> is_digit c)"

definition entry_text :: "string \<times> json \<Rightarrow> string" where
  "entry_text p = encode_string (fst p) @ '': '' @ json_dumps (snd p)"

definition links_workbook :: workbook where
  "links_workbook =
     \<lparr>sheets = [(''Links'',
         \<lparr>data = [[''1'', ''https://a.com''], [''2'', ''HTTPS://A.com/page''], [''3'', '' https://a.com'', ''x'']],
          columns = [''ID'', ''URL''], rows = 3\<rparr>)],
      upload_time = ''2024-01-01 00:00:00'', filename = ''links.xlsx'',
      file_size = 100, total_rows = 3\<rparr>"

definition tiny_workbook :: workbook where
  "tiny_workbook =
     \<lparr>sheets = [(''S'', \<lparr>data = [[''a'']], columns = [''C''], rows = 1\<rparr>)],
      upload_time = ''t'', filename = ''old.xlsx'', file_size = 7, total_rows = 1\<rparr>"

definition io_ok :: io_env where
  "io_ok = \<lparr>can_read = True, can_open_write = True, write_room = None\<rparr>"

definition io_full :: io_env where
  "io_full = \<lparr>can_read = True, can_open_write = True, write_room = Some 12\<rparr>"

definition io_locked :: io_env where
  "io_locked = \<lparr>can_read = False, can_open_write = False, write_room = None\<rparr>"

definition io_blind :: io_env where
  "io_blind = \<lparr>can_read = False, can_open_write = True, write_room = None\<rparr>"

definition two_sheets :: "(string \<times> data_frame) list" where
  "two_sheets =
     [(''S1'', \<lparr>df_columns = [''A'', ''B''],
               df_rows = [[(''A'', Cell_str ''x''), (''B'', Cell_na)],
                          [(''A'', Cell_int (- 5)), (''B'', Cell_bool True)]]\<rparr>),
      (''S2'', \<lparr>df_columns = [''A''], df_rows = [[(''A'', Cell_obj ''1.5'')]]\<rparr>)]"

definition two_sheets_upload :: uploaded_file where
  "two_sheets_upload = \<lparr>upload_name = ''a.xlsx'', upload_size = 10, read_excel = Some two_sheets\<rparr>"

definition two_sheets_workbook :: workbook where
  "two_sheets_workbook =
     \<lparr>sheets = [(''S1'', \<lparr>data = [[''x'', ''''], [''-5'', ''True'']], columns = [''A'', ''B''], rows = 2\<rparr>),
                (''S2'', \<lparr>data = [[''1.5'']], columns = [''A''], rows = 1\<rparr>)],
      upload_time = ''2024-01-01 00:00:00'', filename = ''a.xlsx'', file_size = 10, total_rows = 3\<rparr>"

section \<open>Properties of the search\<close>

lemma scan_row_hits:
  "scan_row q n cols r c cells results = results @ row_hits q n cols r c cells"
  by (induction cells arbitrary: c results) (simp_all add: row_hits_def)

lemma scan_sheet_hits:
  "scan_sheet q n cols r rs results = results @ sheet_hits q n cols r rs"
  by (induction rs arbitrary: r results) (simp_all add: sheet_hits_def scan_row_hits)

lemma scan_sheets_hits:
  "scan_sheets q shs results = results @ workbook_hits q shs"
  by (induction shs arbitrary: results) (auto simp: workbook_hits_def scan_sheet_hits)

lemma search_hits:
  "search_link_in_workbook wb t =
     (if strip (lower t) = [] then [] else workbook_hits (strip (lower t)) (sheets wb))"
  by (simp add: search_link_in_workbook_def scan_sheets_hits Let_def)

lemma enumerate_nth: "enumerate 0 xs = map (\<lambda>k. (k, xs ! k)) [0..<length xs]"
  by (rule nth_equalityI) (simp_all add: nth_enumerate_eq)

lemma map_by_index: "map f xs = map (\<lambda>k. f (xs ! k)) [0..<length xs]"
  by (rule nth_equalityI) simp_all

lemma row_hits_index:
  "row_hits q n cols r 0 cells =
     map (\<lambda>c. make_match q n cols r c (cells ! c))
       (filter (\<lambda>c. str_in q (lower (cells ! c))) [0..<length cells])"
  by (simp add: row_hits_def enumerate_nth filter_map o_def)

lemma sheet_hits_index:
  "sheet_hits q n cols 0 rs =
     concat (map (\<lambda>r. map (\<lambda>c. make_match q n cols r c (rs ! r ! c))
       (filter (\<lambda>c. str_in q (lower (rs ! r ! c))) [0..<length (rs ! r)])) [0..<length rs])"
  by (simp add: sheet_hits_def enumerate_nth row_hits_index o_def)

lemma workbook_hits_cells:
  "workbook_hits q (sheets wb) = map (match_at q wb) (filter (is_hit q wb) (all_cells wb))"
proof -
  have "workbook_hits q (sheets wb) =
      concat (map (\<lambda>i. sheet_hits q (sheet_name_at wb i) (columns (sheet_at wb i)) 0 (data (sheet_at wb i)))
        [0..<length (sheets wb)])"
    unfolding workbook_hits_def sheet_name_at_def sheet_at_def
    by (subst map_by_index) (simp add: case_prod_unfold)
  also have "\<dots> = map (match_at q wb) (filter (is_hit q wb) (all_cells wb))"
    by (simp add: sheet_hits_index all_cells_def map_concat filter_concat o_def
        match_at_def is_hit_def cell_at_def filter_map)
  finally show ?thesis .
qed

lemma distinct_concat_upt:
  assumes "\<And>i. i < n \<Longrightarrow> distinct (f i)"
    and "\<And>i j. i < j \<Longrightarrow> j < n \<Longrightarrow> set (f i) \<inter> set (f j) = {}"
  shows "distinct (concat (map f [0..<n]))"
  using assms
proof (induction n)
  case 0
  then show ?case by simp
next
  case (Suc n)
  have "distinct (concat (map f [0..<n]))"
    using Suc by simp
  moreover have "distinct (f n)"
    using Suc.prems(1) by simp
  moreover have "set (f i) \<inter> set (f n) = {}" if "i < n" for i
    using Suc.prems(2) [of i n] that by simp
  then have "set (concat (map f [0..<n])) \<inter> set (f n) = {}"
    by fastforce
  ultimately show ?case by simp
qed

lemma distinct_all_cells: "distinct (all_cells wb)"
  unfolding all_cells_def
  by (intro distinct_concat_upt) (auto simp: distinct_map inj_on_def)

lemma set_all_cells:
  "set (all_cells wb) =
     {(i, r, c). i < length (sheets wb) \<and> r < length (data (sheet_at wb i))
        \<and> c < length (data (sheet_at wb i) ! r)}"
  by (force simp: all_cells_def)


lemma cell_value_match_at: "cell_value (match_at q wb p) = cell_at wb p"
  by (simp add: match_at_def make_match_def split: prod.splits)

lemma match_type_match_at:
  "match_type (match_at q wb p) = (if q = lower (cell_at wb p) then ''Exact'' else ''Partial'')"
  by (simp add: match_at_def make_match_def split: prod.splits)

lemma search_cells:
  "search_link_in_workbook wb t =
     (if strip (lower t) = [] then []
      else map (match_at (strip (lower t)) wb) (filter (is_hit (strip (lower t)) wb) (all_cells wb)))"
  by (simp add: search_hits workbook_hits_cells)

text \<open>
  Claim C1. For a query whose lower-cased, stripped form \<open>q\<close> is not empty, the search is
  sound and complete. Every returned match has a cell value whose lower-cased form
  contains \<open>q\<close>. The result is, in scan order, the match built at each cell position
  (sheet index, row index, column index) whose lower-cased value contains \<open>q\<close>; these
  positions are pairwise different and are exactly the positions of the workbook, so
  every such cell gives exactly one entry, built from its own sheet, row and column.
\<close>

theorem search_sound_complete:
  assumes "strip (lower t) \<noteq> []"
  shows "(\<forall>m \<in> set (search_link_in_workbook wb t).
            \<exists>pre post. lower (cell_value m) = pre @ strip (lower t) @ post)
       \<and> search_link_in_workbook wb t =
            map (match_at (strip (lower t)) wb)
              (filter (\<lambda>p. \<exists>pre post. lower (cell_at wb p) = pre @ strip (lower t) @ post) (all_cells wb))
       \<and> distinct (all_cells wb)
       \<and> set (all_cells wb) =
            {(i, r, c). i < length (sheets wb) \<and> r < length (data (sheet_at wb i))
               \<and> c < length (data (sheet_at wb i) ! r)}"
proof -
  let ?q = "strip (lower t)"
  have hit: "is_hit ?q wb = (\<lambda>p. \<exists>pre post. lower (cell_at wb p) = pre @ ?q @ post)"
    by (simp add: is_hit_def str_in_def sublist_def fun_eq_iff)
  have eq: "search_link_in_workbook wb t = map (match_at ?q wb) (filter (is_hit ?q wb) (all_cells wb))"
    using assms by (simp add: search_cells)
  have sound: "\<exists>pre post. lower (cell_value m) = pre @ ?q @ post"
    if "m \<in> set (search_link_in_workbook wb t)" for m
    using that unfolding eq hit by (fastforce simp: cell_value_match_at)
  show ?thesis
    using sound eq distinct_all_cells set_all_cells unfolding hit by blast
qed

theorem search_sound_complete_witness:
  "strip (lower ''A.com '') \<noteq> []
   \<and> search_link_in_workbook links_workbook ''A.com '' =
       map (match_at (strip (lower ''A.com '')) links_workbook)
         (filter (\<lambda>p. \<exists>pre post. lower (cell_at links_workbook p) = pre @ strip (lower ''A.com '') @ post)
            (all_cells links_workbook))"
proof -
  have h: "strip (lower ''A.com '') \<noteq> []"
    by code_simp
  from search_sound_complete [OF h, of links_workbook] show ?thesis
    using h by blast
qed

text \<open>
  Claim C4. A returned match is \<open>Exact\<close> if and only if its lower-cased cell value equals
  the lower-cased, stripped query, and it is \<open>Partial\<close> otherwise.
\<close>

theorem match_kind:
  assumes "m \<in> set (search_link_in_workbook wb t)"
  shows "(match_type m = ''Exact'' \<longleftrightarrow> lower (cell_value m) = strip (lower t))
       \<and> (match_type m \<noteq> ''Exact'' \<longrightarrow> match_type m = ''Partial'')"
proof -
  from assms obtain p where "m = match_at (strip (lower t)) wb p"
    by (auto simp: search_cells split: if_splits)
  then show ?thesis
    by (auto simp: cell_value_match_at match_type_match_at)
qed

text \<open>The search on the example workbook.\<close>

lemma links_search_exact:
  "search_link_in_workbook links_workbook ''https://a.com'' =
     [\<lparr>sheet = ''Links'', row = 2, column = ''URL'', cell_value = ''https://a.com'', match_type = ''Exact''\<rparr>,
      \<lparr>sheet = ''Links'', row = 3, column = ''URL'', cell_value = ''HTTPS://A.com/page'', match_type = ''Partial''\<rparr>,
      \<lparr>sheet = ''Links'', row = 4, column = ''URL'', cell_value = '' https://a.com'', match_type = ''Partial''\<rparr>]"
  by code_simp

lemma links_search_x:
  "search_link_in_workbook links_workbook ''X'' =
     [\<lparr>sheet = ''Links'', row = 4, column = ''Column_3'', cell_value = ''x'', match_type = ''Exact''\<rparr>]"
  by code_simp

theorem match_kind_witness:
  "\<lparr>sheet = ''Links'', row = 2, column = ''URL'', cell_value = ''https://a.com'', match_type = ''Exact''\<rparr>
     \<in> set (search_link_in_workbook links_workbook ''https://a.com'')
   \<and> lower ''https://a.com'' = strip (lower ''https://a.com'')"
proof -
  have h: "\<lparr>sheet = ''Links'', row = 2, column = ''URL'', cell_value = ''https://a.com'', match_type = ''Exact''\<rparr>
     \<in> set (search_link_in_workbook links_workbook ''https://a.com'')"
    by (simp add: links_search_exact)
  from match_kind [OF h] show ?thesis
    using h by simp
qed

text \<open>
  Claim C5. When the lower-cased, stripped query is empty the search returns the empty
  list, for every workbook; the empty query and the query of three spaces are such
  queries. The search is a total function: it returns no error.
\<close>

theorem empty_query:
  "(strip (lower t) = [] \<longrightarrow> search_link_in_workbook wb t = [])
   \<and> search_link_in_workbook wb '''' = []
   \<and> search_link_in_workbook wb ''   '' = []"
proof -
  have "strip (lower '''') = []"
    by (simp add: strip_def lstrip_def rstrip_def lower_def)
  moreover have "strip (lower ''   '') = []"
    by code_simp
  ultimately show ?thesis
    by (simp add: search_cells)
qed

theorem empty_query_witness:
  "strip (lower ''  '') = [] \<and> search_link_in_workbook links_workbook ''  '' = []"
proof -
  have h: "strip (lower ''  '') = []"
    by code_simp
  from empty_query [of "''  ''" links_workbook] h show ?thesis
    by blast
qed

text \<open>
  Claim C8. Every returned match comes from a cell of the workbook; its row number is the
  zero-based row index plus 2, and its column is the column name at the cell's index, or
  \<open>Column_n\<close> with \<open>n\<close> the one-based index when the sheet has no column name there.
\<close>

theorem row_number_and_column:
  assumes "m \<in> set (search_link_in_workbook wb t)"
  shows "\<exists>i r c. i < length (sheets wb) \<and> r < length (data (sheet_at wb i))
           \<and> c < length (data (sheet_at wb i) ! r)
           \<and> sheet m = sheet_name_at wb i
           \<and> cell_value m = data (sheet_at wb i) ! r ! c
           \<and> row m = int r + 2
           \<and> column m = (if c < length (columns (sheet_at wb i)) then columns (sheet_at wb i) ! c
                          else ''Column_'' @ str_nat (c + 1))"
proof -
  from assms obtain p where p: "p \<in> set (all_cells wb)" and m: "m = match_at (strip (lower t)) wb p"
    by (auto simp: search_cells split: if_splits)
  obtain i r c where [simp]: "p = (i, r, c)"
    by (cases p)
  from p have "i < length (sheets wb) \<and> r < length (data (sheet_at wb i))
      \<and> c < length (data (sheet_at wb i) ! r)"
    by (simp add: set_all_cells)
  moreover from m have "sheet m = sheet_name_at wb i \<and> cell_value m = data (sheet_at wb i) ! r ! c
      \<and> row m = int r + 2
      \<and> column m = (if c < length (columns (sheet_at wb i)) then columns (sheet_at wb i) ! c
                          else ''Column_'' @ str_nat (c + 1))"
    by (simp add: match_at_def make_match_def cell_at_def col_name_def)
  ultimately show ?thesis
    by blast
qed

theorem row_number_and_column_witness:
  "\<lparr>sheet = ''Links'', row = 4, column = ''Column_3'', cell_value = ''x'', match_type = ''Exact''\<rparr>
     \<in> set (search_link_in_workbook links_workbook ''X'')
   \<and> (\<exists>i r c. i < length (sheets links_workbook) \<and> r < length (data (sheet_at links_workbook i))
           \<and> c < length (data (sheet_at links_workbook i) ! r)
           \<and> (4::int) = int r + 2
           \<and> ''Column_3'' = (if c < length (columns (sheet_at links_workbook i))
                               then columns (sheet_at links_workbook i) ! c
                               else ''Column_'' @ str_nat (c + 1)))"
proof -
  have h: "\<lparr>sheet = ''Links'', row = 4, column = ''Column_3'', cell_value = ''x'', match_type = ''Exact''\<rparr>
     \<in> set (search_link_in_workbook links_workbook ''X'')"
    by (simp add: links_search_x)
  from row_number_and_column [OF h] obtain i r c where
    "i < length (sheets links_workbook) \<and> r < length (data (sheet_at links_workbook i))
           \<and> c < length (data (sheet_at links_workbook i) ! r)
           \<and> (4::int) = int r + 2
           \<and> ''Column_3'' = (if c < length (columns (sheet_at links_workbook i))
                               then columns (sheet_at links_workbook i) ! c
                               else ''Column_'' @ str_nat (c + 1))"
    by auto
  with h show ?thesis
    by blast
qed

text \<open>
  Claim C10. Only the query is stripped. A cell whose lower-cased value is the lower-cased,
  stripped query with white space before or after it (and not the query alone) is
  returned, as a \<open>Partial\<close> match; no match with that cell value is \<open>Exact\<close>.
\<close>

theorem untrimmed_cell_is_partial:
  assumes "i < length (sheets wb)" and "r < length (data (sheet_at wb i))"
    and "c < length (data (sheet_at wb i) ! r)"
    and "strip (lower t) \<noteq> []"
    and "lower (data (sheet_at wb i) ! r ! c) = pre @ strip (lower t) @ post"
    and "\<forall>ch \<in> set (pre @ post). is_space ch"
    and "pre @ post \<noteq> []"
  shows "\<lparr>sheet = sheet_name_at wb i, row = int r + 2, column = col_name (columns (sheet_at wb i)) c,
           cell_value = data (sheet_at wb i) ! r ! c, match_type = ''Partial''\<rparr>
           \<in> set (search_link_in_workbook wb t)
       \<and> (\<forall>m \<in> set (search_link_in_workbook wb t).
             cell_value m = data (sheet_at wb i) ! r ! c \<longrightarrow> match_type m = ''Partial'')"
proof -
  let ?q = "strip (lower t)" and ?cv = "data (sheet_at wb i) ! r ! c"
  have ne: "?q \<noteq> lower ?cv"
  proof
    assume "?q = lower ?cv"
    then have "length (pre @ ?q @ post) = length ?q"
      using assms(5) by simp
    then show False
      using assms(7) by simp
  qed
  have cell: "(i, r, c) \<in> set (all_cells wb)"
    using assms(1-3) by (simp add: set_all_cells)
  have "is_hit ?q wb (i, r, c)"
    using assms(5) by (simp add: is_hit_def cell_at_def str_in_def sublist_def) blast
  with cell have "match_at ?q wb (i, r, c) \<in> set (search_link_in_workbook wb t)"
    using assms(4) by (simp add: search_cells)
  moreover have "match_at ?q wb (i, r, c) =
      \<lparr>sheet = sheet_name_at wb i, row = int r + 2, column = col_name (columns (sheet_at wb i)) c,
       cell_value = ?cv, match_type = ''Partial''\<rparr>"
    using ne by (simp add: match_at_def make_match_def cell_at_def)
  moreover have "match_type m = ''Partial''"
    if "m \<in> set (search_link_in_workbook wb t)" and "cell_value m = ?cv" for m
  proof -
    from that(1) obtain p where "m = match_at ?q wb p"
      by (auto simp: search_cells split: if_splits)
    with that(2) ne show ?thesis
      by (simp add: cell_value_match_at match_type_match_at)
  qed
  ultimately show ?thesis
    by simp
qed

theorem untrimmed_cell_is_partial_witness:
  "(0::nat) < length (sheets links_workbook) \<and> (2::nat) < length (data (sheet_at links_workbook 0))
   \<and> (1::nat) < length (data (sheet_at links_workbook 0) ! 2)
   \<and> strip (lower ''HTTPS://a.com'') \<noteq> []
   \<and> lower (data (sheet_at links_workbook 0) ! 2 ! 1) = '' '' @ strip (lower ''HTTPS://a.com'') @ []
   \<and> list_all is_space ('' '' @ []) \<and> '' '' @ [] \<noteq> ([]::string)
   \<and> \<lparr>sheet = sheet_name_at links_workbook 0, row = int 2 + 2,
       column = col_name (columns (sheet_at links_workbook 0)) 1,
       cell_value = data (sheet_at links_workbook 0) ! 2 ! 1, match_type = ''Partial''\<rparr>
       \<in> set (search_link_in_workbook links_workbook ''HTTPS://a.com'')"
proof -
  have h1: "(0::nat) < length (sheets links_workbook)"
    by (simp add: links_workbook_def)
  have h2: "(2::nat) < length (data (sheet_at links_workbook 0))"
    by (simp add: links_workbook_def sheet_at_def)
  have h3: "(1::nat) < length (data (sheet_at links_workbook 0) ! 2)"
    by (simp add: links_workbook_def sheet_at_def)
  have h4: "strip (lower ''HTTPS://a.com'') \<noteq> []"
    by code_simp
  have h5: "lower (data (sheet_at links_workbook 0) ! 2 ! 1) = '' '' @ strip (lower ''HTTPS://a.com'') @ []"
    by code_simp
  have h6: "\<forall>ch \<in> set ('' '' @ []). is_space ch"
    by code_simp
  have h7: "'' '' @ [] \<noteq> ([]::string)"
    by simp
  have h6': "list_all is_space ('' '' @ [])"
    using h6 by (simp add: list_all_iff)
  from untrimmed_cell_is_partial [OF h1 h2 h3 h4 h5 h6 h7] show ?thesis
    using h1 h2 h3 h4 h5 h6' h7 by blast
qed

section \<open>Reading back what was written\<close>

subsection \<open>Strings\<close>

lemma hex_val_hex_digit: "d < 16 \<Longrightarrow> hex_val (hex_digit d) = Some d"
  by (auto simp: hex_val_def hex_digit_def Let_def)

lemma decode_escape:
  "decode_uXXXX (CHR ''0'' # CHR ''0'' # hex_digit ((of_char c :: nat) div 16) # hex_digit ((of_char c :: nat) mod 16) # tail)
     = Some (c, tail)"
proof -
  let ?n = "of_char c :: nat"
  have "?n < 16 * 16"
    by simp
  then have d: "?n div 16 < 16"
    by (rule less_mult_imp_div_less)
  have m: "?n mod 16 < 16"
    by simp
  have z: "hex_val (CHR ''0'') = Some 0"
    by (simp add: hex_val_def)
  have n: "(0 * 16 + 0) * 16 * 16 + (?n div 16) * 16 + ?n mod 16 = ?n"
    by simp
  show ?thesis
    unfolding decode_uXXXX_def
    apply (simp only: list.case z hex_val_hex_digit [OF d] hex_val_hex_digit [OF m] prod.case option.case Let_def)
    apply simp
    done
qed

lemma char_by_code: "(c = d) \<longleftrightarrow> ((of_char c :: nat) = of_char d)"
  by simp

lemma scanstring_plain:
  assumes "32 \<le> (of_char c :: nat)" and "(of_char c :: nat) \<noteq> 34" and "(of_char c :: nat) \<noteq> 92"
  shows "scanstring (c # tail) = scanned c (scanstring tail)"
proof -
  have "c \<noteq> CHR 0x22" and "c \<noteq> CHR 0x5C"
    using assms by (auto simp: char_by_code [of c])
  then show ?thesis
    using assms(1) by simp
qed

lemma scanstring_backslash:
  assumes "e \<noteq> CHR ''u''" and "unescape e = Some ch"
  shows "scanstring (CHR 0x5C # e # tail) = scanned ch (scanstring tail)"
  using assms by simp

lemma scanstring_u:
  assumes "decode_uXXXX cs = Some (ch, tail)"
  shows "scanstring (CHR 0x5C # CHR ''u'' # cs) = scanned ch (scanstring tail)"
proof -
  from assms have "tail = drop 4 cs"
    by (auto simp: decode_uXXXX_def Let_def split: list.splits option.splits if_splits)
  with assms show ?thesis
    by simp
qed

lemma scanstring_escape_char:
  "scanstring (escape_char c @ tail) = scanned c (scanstring tail)"
proof -
  let ?n = "of_char c :: nat"
  consider "?n = 34" | "?n = 92" | "?n = 10" | "?n = 13" | "?n = 9" | "?n = 8" | "?n = 12"
    | "32 \<le> ?n" "?n \<le> 126" "?n \<noteq> 34" "?n \<noteq> 92"
    | "?n < 32 \<or> 126 < ?n" "?n \<noteq> 10" "?n \<noteq> 13" "?n \<noteq> 9" "?n \<noteq> 8" "?n \<noteq> 12"
    by linarith
  then show ?thesis
  proof cases
    case 1
    then have "c = CHR 0x22" by (simp add: char_by_code [of c])
    then show ?thesis
      by (simp add: escape_char_def unescape_def)
  next
    case 2
    then have "c = CHR 0x5C" by (simp add: char_by_code [of c])
    then show ?thesis
      by (simp add: escape_char_def unescape_def)
  next
    case 3
    then have "c = CHR 0x0A" by (simp add: char_by_code [of c])
    then show ?thesis
      by (simp add: escape_char_def unescape_def)
  next
    case 4
    then have "c = CHR 0x0D" by (simp add: char_by_code [of c])
    then show ?thesis
      by (simp add: escape_char_def unescape_def)
  next
    case 5
    then have "c = CHR 0x09" by (simp add: char_by_code [of c])
    then show ?thesis
      by (simp add: escape_char_def unescape_def)
  next
    case 6
    then have "c = CHR 0x08" by (simp add: char_by_code [of c])
    then show ?thesis
      by (simp add: escape_char_def unescape_def)
  next
    case 7
    then have "c = CHR 0x0C" by (simp add: char_by_code [of c])
    then show ?thesis
      by (simp add: escape_char_def unescape_def)
  next
    case 8
    then have "escape_char c = [c]"
      by (simp add: escape_char_def)
    moreover have "scanstring (c # tail) = scanned c (scanstring tail)"
      using 8 by (intro scanstring_plain)
    ultimately show ?thesis
      by simp
  next
    case 9
    then have e: "escape_char c = [CHR 0x5C, CHR ''u'', CHR ''0'', CHR ''0'', hex_digit (?n div 16), hex_digit (?n mod 16)]"
      by (auto simp: escape_char_def Let_def)
    show ?thesis
      by (simp only: e append_Cons append_Nil scanstring_u [OF decode_escape])
  qed
qed

lemma scanstring_encoded:
  "scanstring (concat (map escape_char s) @ CHR 0x22 # rest) = Some (s, rest)"
proof (induction s)
  case Nil
  show ?case by simp
next
  case (Cons c s)
  have "scanstring (concat (map escape_char (c # s)) @ CHR 0x22 # rest)
      = scanstring (escape_char c @ (concat (map escape_char s) @ CHR 0x22 # rest))"
    by simp
  also have "\<dots> = scanned c (scanstring (concat (map escape_char s) @ CHR 0x22 # rest))"
    by (rule scanstring_escape_char)
  also have "\<dots> = Some (c # s, rest)"
    by (simp add: Cons.IH scanned_def)
  finally show ?case .
qed

subsection \<open>Integers\<close>

lemma of_char_digit_char: "d < 10 \<Longrightarrow> (of_char (digit_char d) :: nat) = 48 + d"
  by (simp add: digit_char_def)

lemma is_digit_digit_char: "d < 10 \<Longrightarrow> is_digit (digit_char d)"
  by (simp add: is_digit_def of_char_digit_char)

lemma digit_val_digit_char: "d < 10 \<Longrightarrow> digit_val (digit_char d) = d"
  by (simp add: digit_val_def of_char_digit_char)

lemma digit_char_zero: "d < 10 \<Longrightarrow> digit_char d = CHR ''0'' \<longleftrightarrow> d = 0"
  by (simp add: char_by_code [of "digit_char d"] of_char_digit_char)

lemma str_nat_digits: "c \<in> set (str_nat n) \<Longrightarrow> is_digit c"
proof (induction n arbitrary: c rule: str_nat.induct)
  case (1 n)
  show ?case
  proof (cases "n < 10")
    case True
    with "1.prems" show ?thesis
      by (simp add: str_nat.simps [of n] is_digit_digit_char)
  next
    case False
    with "1.prems" "1.IH" show ?thesis
      by (auto simp: str_nat.simps [of n] is_digit_digit_char)
  qed
qed

lemma str_nat_not_Nil: "str_nat n \<noteq> []"
  by (simp add: str_nat.simps [of n])

lemma nat_of_digits_snoc: "nat_of_digits (ds @ [c]) = 10 * nat_of_digits ds + digit_val c"
  by (simp add: nat_of_digits_def)

lemma nat_of_digits_str_nat: "nat_of_digits (str_nat n) = n"
proof (induction n rule: str_nat.induct)
  case (1 n)
  show ?case
  proof (cases "n < 10")
    case True
    then show ?thesis
      by (simp add: str_nat.simps [of n] nat_of_digits_def digit_val_digit_char)
  next
    case False
    with "1.IH" show ?thesis
      by (simp add: str_nat.simps [of n] nat_of_digits_snoc digit_val_digit_char)
  qed
qed

lemma hd_str_nat_zero: "hd (str_nat n) = CHR ''0'' \<longleftrightarrow> n = 0"
proof (induction n rule: str_nat.induct)
  case (1 n)
  show ?case
  proof (cases "n < 10")
    case True
    then show ?thesis
      by (simp add: str_nat.simps [of n] digit_char_zero)
  next
    case False
    then have "hd (str_nat n) = hd (str_nat (n div 10))"
      by (simp add: str_nat.simps [of n] str_nat_not_Nil)
    with False "1.IH" show ?thesis
      by simp
  qed
qed

lemma str_nat_0: "str_nat 0 = ''0''"
  using digit_char_zero [of 0] by (simp add: str_nat.simps [of 0])

lemma takeWhile_digits: "no_digit rest \<Longrightarrow> takeWhile is_digit (str_nat n @ rest) = str_nat n"
  by (cases rest) (simp_all add: no_digit_def str_nat_digits)

lemma dropWhile_digits: "no_digit rest \<Longrightarrow> dropWhile is_digit (str_nat n @ rest) = rest"
  by (cases rest) (simp_all add: no_digit_def str_nat_digits)

lemma int_literal_str_nat:
  assumes "no_digit rest"
  shows "int_literal (str_nat n @ rest) = Some (n, rest)"
proof (cases "n = 0")
  case True
  then show ?thesis
    by (simp add: str_nat_0 int_literal_def)
next
  case False
  obtain c cs where s: "str_nat n = c # cs"
    using str_nat_not_Nil [of n] by (cases "str_nat n") auto
  have "c \<noteq> CHR ''0''"
    using hd_str_nat_zero [of n] False s by simp
  moreover have "is_digit c"
    using str_nat_digits [of c n] s by simp
  moreover have "takeWhile is_digit (c # cs @ rest) = c # cs" "dropWhile is_digit (c # cs @ rest) = rest"
    using takeWhile_digits [OF assms, of n] dropWhile_digits [OF assms, of n] s by simp_all
  ultimately show ?thesis
    using nat_of_digits_str_nat [of n] s
    by (simp add: int_literal_def del: takeWhile.simps dropWhile.simps)
qed

lemma follow_ok_no_digit: "follow_ok rest \<Longrightarrow> no_digit rest"
  by (auto simp: follow_ok_def no_digit_def is_digit_def split: list.splits)

lemma follow_ok_no_float: "follow_ok rest \<Longrightarrow> \<not> has_frac rest \<and> \<not> has_exp rest"
  by (auto simp: follow_ok_def has_frac_def has_exp_def split: list.splits)

lemma match_number_str_int:
  assumes "follow_ok rest"
  shows "match_number (str_int i @ rest) = Some (JInt i, rest)"
proof (cases "i < 0")
  case True
  then have "str_int i @ rest = CHR ''-'' # (str_nat (nat (- i)) @ rest)"
    by (simp add: str_int_def)
  then show ?thesis
    using True follow_ok_no_float [OF assms] int_literal_str_nat [OF follow_ok_no_digit [OF assms]]
    by (simp add: match_number_def)
next
  case False
  obtain c cs where s: "str_nat (nat i) = c # cs"
    using str_nat_not_Nil [of "nat i"] by (cases "str_nat (nat i)") auto
  have "is_digit c"
    using str_nat_digits [of c "nat i"] s by simp
  then have "c \<noteq> CHR ''-''"
    by (auto simp: is_digit_def)
  then have neg: "(case str_int i @ rest of [] \<Rightarrow> False | c # _ \<Rightarrow> c = CHR ''-'') = False"
    using False s by (simp add: str_int_def)
  have "int_literal (str_int i @ rest) = Some (nat i, rest)"
    using False int_literal_str_nat [OF follow_ok_no_digit [OF assms]] by (simp add: str_int_def)
  then show ?thesis
    using False follow_ok_no_float [OF assms]
    unfolding match_number_def neg by simp
qed

subsection \<open>Single values\<close>

lemma json_dumps_dict: "json_dumps (JDict d) = ''{'' @ join '', '' (map entry_text d) @ ''}''"
proof -
  have "(\<lambda>(k, v). encode_string k @ '': '' @ json_dumps v) = entry_text"
    by (simp add: entry_text_def fun_eq_iff)
  then show ?thesis
    by simp
qed

lemma skip_ws_start: "\<not> is_ws c \<Longrightarrow> skip_ws (c # cs) = c # cs"
  by (simp add: skip_ws_def)

lemma skip_ws_space: "skip_ws (CHR '' '' # cs) = skip_ws cs"
  by (simp add: skip_ws_def is_ws_def)

lemma value_start_not_ws: "value_start c \<Longrightarrow> \<not> is_ws c"
  by (auto simp: value_start_def is_ws_def is_digit_def)

lemma value_start_not_close:
  "value_start c \<Longrightarrow> c \<noteq> CHR '']'' \<and> c \<noteq> CHR ''}'' \<and> c \<noteq> CHR '','' \<and> c \<noteq> CHR '':''"
  by (auto simp: value_start_def is_digit_def)

lemma str_int_start: "\<exists>c cs. str_int i = c # cs \<and> (is_digit c \<or> c = CHR ''-'')"
proof (cases "i < 0")
  case True
  then show ?thesis by (simp add: str_int_def)
next
  case False
  obtain c cs where s: "str_nat (nat i) = c # cs"
    using str_nat_not_Nil [of "nat i"] by (cases "str_nat (nat i)") auto
  then have "is_digit c"
    using str_nat_digits [of c "nat i"] by simp
  with s False show ?thesis by (simp add: str_int_def)
qed

lemma json_dumps_start: "\<exists>c cs. json_dumps v = c # cs \<and> value_start c"
proof (cases v)
  case (JInt i)
  then show ?thesis
    using str_int_start [of i] by (auto simp: value_start_def)
qed (auto simp: value_start_def encode_string_def)

lemma skip_ws_json_dumps: "skip_ws (json_dumps v @ rest) = json_dumps v @ rest"
  using json_dumps_start [of v] by (auto simp: skip_ws_start value_start_not_ws)

lemma entry_text_start: "\<exists>t. entry_text p = CHR 0x22 # t"
  by (simp add: entry_text_def encode_string_def)

lemma join_Cons_start: "\<exists>t. x = c # t \<Longrightarrow> \<exists>t. join sep (x # xs) = c # t"
  by (cases xs) auto

lemma scan_once_null: "scan_once (Suc n) (''null'' @ rest) = Some (JNull, rest)"
  by simp

lemma scan_once_true: "scan_once (Suc n) (''true'' @ rest) = Some (JBool True, rest)"
  by simp

lemma scan_once_false: "scan_once (Suc n) (''false'' @ rest) = Some (JBool False, rest)"
  by simp

lemma scan_once_number:
  assumes "is_digit c \<or> c = CHR ''-''"
  shows "scan_once (Suc n) (c # cs) = match_number (c # cs)"
proof -
  from assms have "c \<noteq> CHR 0x22" "c \<noteq> CHR ''{''" "c \<noteq> CHR ''[''" "c \<noteq> CHR ''n''" "c \<noteq> CHR ''t''" "c \<noteq> CHR ''f''"
    by (auto simp: is_digit_def)
  then show ?thesis
    by simp
qed

lemma scan_once_string: "scan_once (Suc n) (encode_string s @ rest) = Some (JStr s, rest)"
  by (simp add: encode_string_def scanstring_encoded)

lemma scan_once_int:
  assumes "follow_ok rest"
  shows "scan_once (Suc n) (str_int i @ rest) = Some (JInt i, rest)"
proof -
  obtain c cs where s: "str_int i = c # cs" and c: "is_digit c \<or> c = CHR ''-''"
    using str_int_start [of i] by blast
  have "scan_once (Suc n) (str_int i @ rest) = match_number (str_int i @ rest)"
    using scan_once_number [OF c, of n "cs @ rest"] s by simp
  then show ?thesis
    by (simp add: match_number_str_int [OF assms])
qed

lemma scan_once_empty_list: "scan_once (Suc n) (''[]'' @ rest) = Some (JList [], rest)"
  by (simp add: skip_ws_def is_ws_def)

lemma scan_once_empty_dict: "scan_once (Suc n) (''{}'' @ rest) = Some (JDict [], rest)"
  by (simp add: skip_ws_def is_ws_def)

lemma scan_once_list:
  assumes "value_start c"
  shows "scan_once (Suc n) (CHR ''['' # c # cs) =
     (case scan_array n (c # cs) [] of None \<Rightarrow> None | Some (vs, rest) \<Rightarrow> Some (JList vs, rest))"
  using value_start_not_close [OF assms] value_start_not_ws [OF assms]
  by (simp add: skip_ws_start)

lemma scan_once_dict:
  "scan_once (Suc n) (CHR ''{'' # CHR 0x22 # cs) =
     (case scan_object n cs [] of None \<Rightarrow> None
      | Some (pairs, rest) \<Rightarrow> Some (JDict (dict_of_pairs pairs), rest))"
  by (simp add: skip_ws_def is_ws_def)

subsection \<open>Lists and dictionaries\<close>

declare scan_once.simps(2) [simp del]

lemma follow_ok_simps:
  "follow_ok []" "follow_ok (CHR '','' # cs)" "follow_ok (CHR '']'' # cs)" "follow_ok (CHR ''}'' # cs)"
  by (simp_all add: follow_ok_def)

lemma skip_ws_close:
  "skip_ws (CHR '','' # cs) = CHR '','' # cs" "skip_ws (CHR '']'' # cs) = CHR '']'' # cs"
  "skip_ws (CHR ''}'' # cs) = CHR ''}'' # cs" "skip_ws (CHR '':'' # cs) = CHR '':'' # cs"
  "skip_ws (CHR 0x22 # cs) = CHR 0x22 # cs"
  by (simp_all add: skip_ws_def is_ws_def)

lemma join_dumps_start: "xs \<noteq> [] \<Longrightarrow> \<exists>c t. join '', '' (map json_dumps xs) = c # t \<and> value_start c"
proof (cases xs)
  case (Cons x xs')
  obtain c t where "json_dumps x = c # t" "value_start c"
    using json_dumps_start by blast
  with Cons show ?thesis
    by (cases xs') auto
qed simp

lemma scan_array_items:
  assumes "\<And>x n rest. x \<in> set xs \<Longrightarrow> need x \<le> n \<Longrightarrow> follow_ok rest
             \<Longrightarrow> scan_once n (json_dumps x @ rest) = Some (x, rest)"
    and "xs \<noteq> []"
    and "sum_list (map (\<lambda>x. Suc (need x)) xs) \<le> n"
  shows "scan_array n (join '', '' (map json_dumps xs) @ CHR '']'' # rest) vs = Some (vs @ xs, rest)"
  using assms
proof (induction xs arbitrary: n vs)
  case Nil
  then show ?case by simp
next
  case (Cons x xs)
  from Cons.prems(3) obtain m where n: "n = Suc m" and m: "need x + sum_list (map (\<lambda>x. Suc (need x)) xs) \<le> m"
    by (cases n) auto
  have x: "scan_once m (json_dumps x @ r) = Some (x, r)" if "follow_ok r" for r
    using Cons.prems(1) [of x m r] m that by simp
  show ?case
  proof (cases xs)
    case Nil
    then show ?thesis
      by (simp add: n x follow_ok_simps skip_ws_close)
  next
    case (Cons y ys)
    let ?tail = "join '', '' (map json_dumps xs) @ CHR '']'' # rest"
    have shape: "join '', '' (map json_dumps (x # xs)) @ CHR '']'' # rest
        = json_dumps x @ CHR '','' # CHR '' '' # ?tail"
      using Cons by simp
    obtain c t where "join '', '' (map json_dumps xs) = c # t" "value_start c"
      using join_dumps_start [of xs] Cons by auto
    then have sk: "skip_ws (CHR '' '' # ?tail) = ?tail"
      by (simp add: skip_ws_space skip_ws_start value_start_not_ws)
    have "scan_array m ?tail (vs @ [x]) = Some ((vs @ [x]) @ xs, rest)"
      using Cons.IH [of m "vs @ [x]"] Cons.prems(1) m Cons by simp
    then show ?thesis
      unfolding shape n
      by (simp add: x follow_ok_simps skip_ws_close sk)
  qed
qed

lemma join_entries_start: "d \<noteq> [] \<Longrightarrow> \<exists>t. join '', '' (map entry_text d) = CHR 0x22 # t"
proof (cases d)
  case (Cons p d')
  obtain t where "entry_text p = CHR 0x22 # t"
    using entry_text_start by blast
  with Cons show ?thesis
    by (cases d') auto
qed simp

lemma scan_object_items:
  assumes "\<And>p n rest. p \<in> set d \<Longrightarrow> need (snd p) \<le> n \<Longrightarrow> follow_ok rest
             \<Longrightarrow> scan_once n (json_dumps (snd p) @ rest) = Some (snd p, rest)"
    and "d \<noteq> []"
    and "sum_list (map (\<lambda>p. Suc (need (snd p))) d) \<le> n"
  shows "scan_object n (tl (join '', '' (map entry_text d)) @ CHR ''}'' # rest) pairs = Some (pairs @ d, rest)"
  using assms
proof (induction d arbitrary: n pairs)
  case Nil
  then show ?case by simp
next
  case (Cons p d)
  obtain k v where p: "p = (k, v)"
    by (cases p)
  from Cons.prems(3) obtain m where n: "n = Suc m" and m: "need v + sum_list (map (\<lambda>p. Suc (need (snd p))) d) \<le> m"
    by (cases n) (auto simp: p)
  have v: "scan_once m (json_dumps v @ r) = Some (v, r)" if "follow_ok r" for r
    using Cons.prems(1) [of p m r] m that by (simp add: p)
  have sv: "skip_ws (CHR '' '' # json_dumps v @ r) = json_dumps v @ r" for r
    by (simp add: skip_ws_space skip_ws_json_dumps)
  have entry: "entry_text p = CHR 0x22 # concat (map escape_char k) @ CHR 0x22 # CHR '':'' # CHR '' '' # json_dumps v"
    by (simp add: entry_text_def encode_string_def p)
  show ?case
  proof (cases d)
    case Nil
    have "tl (join '', '' (map entry_text (p # d))) @ CHR ''}'' # rest
        = concat (map escape_char k) @ CHR 0x22 # (CHR '':'' # CHR '' '' # json_dumps v @ CHR ''}'' # rest)"
      using Nil by (simp add: entry)
    then show ?thesis
      unfolding n
      by (simp add: scanstring_encoded skip_ws_close sv v follow_ok_simps p Nil)
  next
    case (Cons q d')
    let ?more = "join '', '' (map entry_text d)"
    obtain t where t: "?more = CHR 0x22 # t"
      using join_entries_start [of d] Cons by auto
    have shape: "tl (join '', '' (map entry_text (p # d))) @ CHR ''}'' # rest
        = concat (map escape_char k) @ CHR 0x22 #
            (CHR '':'' # CHR '' '' # json_dumps v @ CHR '','' # CHR '' '' # CHR 0x22 # t @ CHR ''}'' # rest)"
      using Cons t by (simp add: entry)
    have "scan_object m (tl ?more @ CHR ''}'' # rest) (pairs @ [p]) = Some ((pairs @ [p]) @ d, rest)"
      using Cons.IH [of m "pairs @ [p]"] Cons.prems(1) m Cons by simp
    then have rec: "scan_object m (t @ CHR ''}'' # rest) (pairs @ [(k, v)]) = Some (pairs @ (k, v) # d, rest)"
      by (simp add: t p)
    show ?thesis
      unfolding shape n
      by (simp add: scanstring_encoded skip_ws_close skip_ws_json_dumps v follow_ok_simps skip_ws_space rec p)
  qed
qed

lemma dict_set_fresh: "k \<notin> fst ` set d \<Longrightarrow> dict_set d k v = d @ [(k, v)]"
  by (induction d) auto

lemma foldl_dict_set:
  "distinct (map fst (acc @ d)) \<Longrightarrow> foldl (\<lambda>d (k, v). dict_set d k v) acc d = acc @ d"
proof (induction d arbitrary: acc)
  case Nil
  show ?case by simp
next
  case (Cons p d)
  obtain k v where p: "p = (k, v)"
    by (cases p)
  have "dict_set acc k v = acc @ [(k, v)]"
    using Cons.prems by (intro dict_set_fresh) (auto simp: p)
  moreover have "distinct (map fst ((acc @ [(k, v)]) @ d))"
    using Cons.prems by (simp add: p)
  ultimately show ?case
    using Cons.IH [of "acc @ [(k, v)]"] by (simp add: p)
qed

lemma dict_of_pairs_distinct: "distinct (map fst d) \<Longrightarrow> dict_of_pairs d = d"
  using foldl_dict_set [of "[]" d] by (simp add: dict_of_pairs_def)

subsection \<open>Every well-formed value\<close>

lemma scan_once_json_dumps:
  "wf_json v \<Longrightarrow> need v \<le> n \<Longrightarrow> follow_ok rest \<Longrightarrow> scan_once n (json_dumps v @ rest) = Some (v, rest)"
proof (induction v arbitrary: n rest)
  case JNull
  then obtain m where "n = Suc m" by (cases n) auto
  then show ?case using scan_once_null [of m rest] by simp
next
  case (JBool b)
  then obtain m where "n = Suc m" by (cases n) auto
  then show ?case
    using scan_once_true [of m rest] scan_once_false [of m rest] by (cases b) simp_all
next
  case (JInt i)
  then obtain m where "n = Suc m" by (cases n) auto
  then show ?case using scan_once_int [OF JInt.prems(3), of m i] by simp
next
  case (JStr s)
  then obtain m where "n = Suc m" by (cases n) auto
  then show ?case using scan_once_string [of m s rest] by simp
next
  case (JList xs)
  from JList.prems(2) obtain m where n: "n = Suc m" and m: "sum_list (map (\<lambda>x. Suc (need x)) xs) \<le> m"
    by (cases n) auto
  show ?case
  proof (cases "xs = []")
    case True
    then show ?thesis
      using scan_once_empty_list [of m rest] by (simp add: n)
  next
    case False
    obtain c t where ct: "join '', '' (map json_dumps xs) = c # t" and c: "value_start c"
      using join_dumps_start [OF False] by blast
    have items: "scan_array m (join '', '' (map json_dumps xs) @ CHR '']'' # rest) [] = Some ([] @ xs, rest)"
    proof (rule scan_array_items [OF _ False m])
      fix x k r
      assume "x \<in> set xs" "need x \<le> k" "follow_ok r"
      then show "scan_once k (json_dumps x @ r) = Some (x, r)"
        using JList.IH [of x k r] JList.prems(1) by simp
    qed
    have "scan_once (Suc m) (CHR ''['' # c # (t @ CHR '']'' # rest)) = Some (JList xs, rest)"
      using items unfolding scan_once_list [OF c] ct by simp
    then show ?thesis
      by (simp add: n ct)
  qed
next
  case (JDict d)
  from JDict.prems(2) obtain m where n: "n = Suc m" and m: "sum_list (map (\<lambda>p. Suc (need (snd p))) d) \<le> m"
    by (cases n) auto
  from JDict.prems(1) have dist: "distinct (map fst d)" and wf: "\<And>p. p \<in> set d \<Longrightarrow> wf_json (snd p)"
    by simp_all
  show ?case
  proof (cases "d = []")
    case True
    then show ?thesis
      using scan_once_empty_dict [of m rest] by (simp add: n)
  next
    case False
    obtain t where t: "join '', '' (map entry_text d) = CHR 0x22 # t"
      using join_entries_start [OF False] by blast
    have items: "scan_object m (tl (join '', '' (map entry_text d)) @ CHR ''}'' # rest) [] = Some ([] @ d, rest)"
    proof (rule scan_object_items [OF _ False m])
      fix p k r
      assume p: "p \<in> set d" and "need (snd p) \<le> k" "follow_ok r"
      moreover have "snd p \<in> Basic_BNFs.snds p"
        by (cases p) simp
      ultimately show "scan_once k (json_dumps (snd p) @ r) = Some (snd p, r)"
        using JDict.IH [of p "snd p" k r] wf [OF p] by simp
    qed
    have "scan_once (Suc m) (CHR ''{'' # CHR 0x22 # (t @ CHR ''}'' # rest)) = Some (JDict d, rest)"
      using items unfolding scan_once_dict t by (simp add: dict_of_pairs_distinct [OF dist])
    then show ?thesis
      by (simp add: n json_dumps_dict t del: json_dumps.simps)
  qed
qed

lemma length_join:
  "xs \<noteq> [] \<Longrightarrow> sum_list (map (\<lambda>x. Suc (length x)) xs) + length xs = length (join '', '' xs) + 2"
proof (induction xs)
  case Nil
  then show ?case by simp
next
  case (Cons x xs)
  then show ?case by (cases xs) simp_all
qed

lemma need_le_length: "need v \<le> length (json_dumps v)"
proof (induction v)
  case (JInt i)
  then show ?case
    using str_int_start [of i] by auto
next
  case (JList xs)
  show ?case
  proof (cases "xs = []")
    case True
    then show ?thesis by simp
  next
    case False
    have "sum_list (map (\<lambda>x. Suc (need x)) xs) \<le> sum_list (map (\<lambda>x. Suc (length x)) (map json_dumps xs))"
      unfolding map_map o_def using JList.IH by (intro sum_list_mono) simp
    moreover have "sum_list (map (\<lambda>x. Suc (length x)) (map json_dumps xs)) + length (map json_dumps xs)
        = length (join '', '' (map json_dumps xs)) + 2"
      using length_join [of "map json_dumps xs"] False by simp
    moreover have "Suc 0 \<le> length (map json_dumps xs)"
      using False by (cases xs) simp_all
    ultimately have "sum_list (map (\<lambda>x. Suc (need x)) xs) \<le> Suc (length (join '', '' (map json_dumps xs)))"
      by linarith
    then show ?thesis
      by simp
  qed
next
  case (JDict d)
  show ?case
  proof (cases "d = []")
    case True
    then show ?thesis by simp
  next
    case False
    have "need (snd p) \<le> length (entry_text p)" if "p \<in> set d" for p
    proof -
      have "snd p \<in> Basic_BNFs.snds p"
        by (cases p) simp
      then have "need (snd p) \<le> length (json_dumps (snd p))"
        using JDict.IH [OF that] by simp
      then show ?thesis
        by (simp add: entry_text_def)
    qed
    then have "sum_list (map (\<lambda>p. Suc (need (snd p))) d) \<le> sum_list (map (\<lambda>x. Suc (length x)) (map entry_text d))"
      unfolding map_map o_def by (intro sum_list_mono) simp
    moreover have "sum_list (map (\<lambda>x. Suc (length x)) (map entry_text d)) + length (map entry_text d)
        = length (join '', '' (map entry_text d)) + 2"
      using length_join [of "map entry_text d"] False by simp
    moreover have "Suc 0 \<le> length (map entry_text d)"
      using False by (cases d) simp_all
    ultimately have "sum_list (map (\<lambda>p. Suc (need (snd p))) d) \<le> Suc (length (join '', '' (map entry_text d)))"
      by linarith
    then show ?thesis
      by (simp add: json_dumps_dict del: json_dumps.simps)
  qed
qed (simp_all add: encode_string_def)

lemma skip_ws_Nil: "skip_ws [] = []"
  by (simp add: skip_ws_def)

lemma json_loads_dumps: "wf_json v \<Longrightarrow> json_loads (json_dumps v) = Some v"
proof -
  assume wf: "wf_json v"
  have sk: "skip_ws (json_dumps v) = json_dumps v"
    using skip_ws_json_dumps [of v "[]"] by simp
  have "scan_once (Suc (length (json_dumps v))) (json_dumps v @ []) = Some (v, [])"
    using need_le_length [of v] by (intro scan_once_json_dumps [OF wf]) (simp_all add: follow_ok_simps)
  then show ?thesis
    using skip_ws_Nil by (simp add: json_loads_def sk del: json_dumps.simps)
qed

section \<open>Properties of the snapshot store\<close>

lemma wf_sheet_json: "wf_json (sheet_json info)"
  by (auto simp: sheet_json_def)

lemma wf_workbook_json: "dict_keys_ok (sheets wb) \<Longrightarrow> wf_json (workbook_json wb)"
  by (auto simp: workbook_json_def dict_keys_ok_def wf_sheet_json distinct_map inj_on_def
      case_prod_unfold comp_def)

lemma sheet_json_inj: "sheet_json a = sheet_json b \<Longrightarrow> a = b"
proof -
  assume eq: "sheet_json a = sheet_json b"
  have str: "inj JStr"
    by (simp add: inj_def)
  then have "inj (\<lambda>r. JList (map JStr r))"
    by (simp add: inj_def)
  then have "map (\<lambda>r. JList (map JStr r)) (data a) = map (\<lambda>r. JList (map JStr r)) (data b) \<Longrightarrow> data a = data b"
    by simp
  moreover have "map JStr (columns a) = map JStr (columns b) \<Longrightarrow> columns a = columns b"
    using str by simp
  ultimately show ?thesis
    using eq by (cases a, cases b) (simp add: sheet_json_def)
qed

lemma workbook_json_inj: "workbook_json a = workbook_json b \<Longrightarrow> a = b"
proof -
  assume eq: "workbook_json a = workbook_json b"
  have "inj (\<lambda>(sheet_name :: string, info). (sheet_name, sheet_json info))"
    by (auto simp: inj_def dest: sheet_json_inj)
  then have "map (\<lambda>(sheet_name, info). (sheet_name, sheet_json info)) (sheets a)
      = map (\<lambda>(sheet_name, info). (sheet_name, sheet_json info)) (sheets b) \<Longrightarrow> sheets a = sheets b"
    by simp
  with eq show ?thesis
    by (cases a, cases b) (simp add: workbook_json_def)
qed

lemma load_written:
  "wf_json v \<Longrightarrow> can_read io \<Longrightarrow> load_workbook_data io (Some (json_dumps v)) = v"
  by (simp add: load_workbook_data_def json_loads_dumps del: json_dumps.simps)

lemma save_returns:
  "raised (save_workbook_data io v file) = None \<Longrightarrow>
     file_after (save_workbook_data io v file) = Some (json_dumps v)"
  by (auto simp: save_workbook_data_def Let_def split: option.splits if_splits simp del: json_dumps.simps)

lemma save_completes:
  assumes "can_open_write io"
    and "case write_room io of None \<Rightarrow> True | Some k \<Rightarrow> length (json_dumps v) \<le> k"
  shows "raised (save_workbook_data io v file) = None"
    and "file_after (save_workbook_data io v file) = Some (json_dumps v)"
  using assms
  by (auto simp: save_workbook_data_def Let_def split: option.splits simp del: json_dumps.simps)

lemma save_open_fails:
  assumes "\<not> can_open_write io"
  shows "raised (save_workbook_data io v file) = Some Open_error"
    and "file_after (save_workbook_data io v file) = file"
  using assms by (simp_all add: save_workbook_data_def Let_def del: json_dumps.simps)

lemma save_write_fails:
  assumes "can_open_write io" and "write_room io = Some k" and "k < length (json_dumps v)"
  shows "raised (save_workbook_data io v file) = Some Write_error"
    and "file_after (save_workbook_data io v file) = Some (take k (json_dumps v))"
  using assms by (simp_all add: save_workbook_data_def Let_def del: json_dumps.simps)

text \<open>
  Claim C3. A workbook whose sheet names are pairwise different, written by a save that
  returns, is what a later load returns when it can read the file: the same value, with
  every field, sheet, row and column in the same order. The written value determines
  the workbook: no other workbook has the same value.
\<close>

theorem save_load_round_trip:
  assumes "dict_keys_ok (sheets wb)"
    and "raised (save_workbook_data io (workbook_json wb) file) = None"
    and "can_read io'"
  shows "load_workbook_data io' (file_after (save_workbook_data io (workbook_json wb) file)) = workbook_json wb
       \<and> (\<forall>wb'. workbook_json wb' = workbook_json wb \<longrightarrow> wb' = wb)"
  using load_written [OF wf_workbook_json [OF assms(1)] assms(3)] save_returns [OF assms(2)]
    workbook_json_inj
  by auto

theorem save_load_round_trip_witness:
  "dict_keys_ok (sheets tiny_workbook)
   \<and> raised (save_workbook_data io_ok (workbook_json tiny_workbook) None) = None
   \<and> can_read io_ok
   \<and> load_workbook_data io_ok (file_after (save_workbook_data io_ok (workbook_json tiny_workbook) None))
       = workbook_json tiny_workbook"
proof -
  have h1: "dict_keys_ok (sheets tiny_workbook)"
    by (simp add: dict_keys_ok_def tiny_workbook_def)
  have h2: "raised (save_workbook_data io_ok (workbook_json tiny_workbook) None) = None"
    by (simp add: save_workbook_data_def io_ok_def Let_def del: json_dumps.simps)
  have h3: "can_read io_ok"
    by (simp add: io_ok_def)
  from save_load_round_trip [OF h1 h2 h3] show ?thesis
    using h1 h2 h3 by blast
qed

text \<open>
  Claim C9. A save does not depend on what the file held before or on whether that could
  be read. Whatever \<open>file\<close> is (absent, or any text, well-formed or not) and whether or
  not the old data can be read, when the file can be opened for writing and the whole
  text reaches it, the save returns, the file holds the new workbook, and a later load
  that can read the file returns it.
\<close>

theorem save_ignores_previous_slot:
  assumes "dict_keys_ok (sheets wb)"
    and "can_open_write io"
    and "case write_room io of None \<Rightarrow> True | Some k \<Rightarrow> length (json_dumps (workbook_json wb)) \<le> k"
    and "can_read io'"
  shows "raised (save_workbook_data io (workbook_json wb) file) = None
       \<and> file_after (save_workbook_data io (workbook_json wb) file) = Some (json_dumps (workbook_json wb))
       \<and> load_workbook_data io' (file_after (save_workbook_data io (workbook_json wb) file)) = workbook_json wb"
  using save_completes [OF assms(2,3), of "file"] load_written [OF wf_workbook_json [OF assms(1)] assms(4)]
  by simp

theorem save_ignores_previous_slot_witness:
  "dict_keys_ok (sheets tiny_workbook)
   \<and> can_open_write io_blind
   \<and> (case write_room io_blind of None \<Rightarrow> True
       | Some k \<Rightarrow> length (json_dumps (workbook_json tiny_workbook)) \<le> k)
   \<and> can_read io_ok
   \<and> load_workbook_data io_ok (Some ''{{'') = JNull
   \<and> load_workbook_data io_ok
        (file_after (save_workbook_data io_blind (workbook_json tiny_workbook) (Some ''{{'')))
       = workbook_json tiny_workbook"
proof -
  have h1: "dict_keys_ok (sheets tiny_workbook)"
    by (simp add: dict_keys_ok_def tiny_workbook_def)
  have h2: "can_open_write io_blind"
    by (simp add: io_blind_def)
  have h3: "case write_room io_blind of None \<Rightarrow> True
       | Some k \<Rightarrow> length (json_dumps (workbook_json tiny_workbook)) \<le> k"
    by (simp add: io_blind_def)
  have h4: "can_read io_ok"
    by (simp add: io_ok_def)
  have c: "load_workbook_data io_ok (Some ''{{'') = JNull"
    by code_simp
  from save_ignores_previous_slot [OF h1 h2 h3 h4, of "Some ''{{''"] show ?thesis
    using h1 h2 h3 h4 c by blast
qed



text \<open>
  Claim C2, as stated, fails. The file holds a workbook; a save of another workbook opens
  the file, which empties it, and the write raises after 12 characters. The save has
  failed, the file no longer holds what it held, and a load returns \<^verbatim>\<open>None\<close>, neither
  the old workbook nor the new one.
\<close>

theorem save_not_atomic_counterexample:
  "load_workbook_data io_ok (Some (json_dumps (workbook_json tiny_workbook))) = workbook_json tiny_workbook
   \<and> raised (save_workbook_data io_full (workbook_json (tiny_workbook\<lparr>filename := ''new.xlsx''\<rparr>))
        (Some (json_dumps (workbook_json tiny_workbook)))) = Some Write_error
   \<and> file_after (save_workbook_data io_full (workbook_json (tiny_workbook\<lparr>filename := ''new.xlsx''\<rparr>))
        (Some (json_dumps (workbook_json tiny_workbook)))) \<noteq> Some (json_dumps (workbook_json tiny_workbook))
   \<and> load_workbook_data io_ok
        (file_after (save_workbook_data io_full (workbook_json (tiny_workbook\<lparr>filename := ''new.xlsx''\<rparr>))
           (Some (json_dumps (workbook_json tiny_workbook))))) = JNull"
  by code_simp

text \<open>
  Claim C2, amended. A save has three outcomes. When the file cannot be opened for
  writing it raises and the file is as before. When the file is opened and the whole
  text reaches it, the save returns, the file holds the new value, and a later load
  that can read the file returns it. When the write raises after \<open>k\<close> characters the
  save raises and the file holds those \<open>k\<close> characters of the new text: what it held
  before is gone.
\<close>

theorem save_outcomes:
  "(\<not> can_open_write io \<longrightarrow>
      raised (save_workbook_data io new_data file) = Some Open_error
      \<and> file_after (save_workbook_data io new_data file) = file)
   \<and> (can_open_write io \<and> (case write_room io of None \<Rightarrow> True | Some k \<Rightarrow> length (json_dumps new_data) \<le> k) \<longrightarrow>
      raised (save_workbook_data io new_data file) = None
      \<and> file_after (save_workbook_data io new_data file) = Some (json_dumps new_data)
      \<and> (wf_json new_data \<and> can_read io' \<longrightarrow>
           load_workbook_data io' (file_after (save_workbook_data io new_data file)) = new_data))
   \<and> (can_open_write io \<and> write_room io = Some k \<and> k < length (json_dumps new_data) \<longrightarrow>
      raised (save_workbook_data io new_data file) = Some Write_error
      \<and> file_after (save_workbook_data io new_data file) = Some (take k (json_dumps new_data)))"
  using save_open_fails [of io new_data "file"] save_completes [of io new_data "file"]
    save_write_fails [of io k new_data "file"] load_written [of new_data io']
  by (simp del: json_dumps.simps)

theorem save_outcomes_witness:
  "\<not> can_open_write io_locked
   \<and> file_after (save_workbook_data io_locked (workbook_json tiny_workbook) (Some ''[1]'')) = Some ''[1]''
   \<and> can_open_write io_ok
   \<and> (case write_room io_ok of None \<Rightarrow> True | Some k \<Rightarrow> length (json_dumps (workbook_json tiny_workbook)) \<le> k)
   \<and> wf_json (workbook_json tiny_workbook) \<and> can_read io_ok
   \<and> load_workbook_data io_ok (file_after (save_workbook_data io_ok (workbook_json tiny_workbook) (Some ''[1]'')))
       = workbook_json tiny_workbook
   \<and> can_open_write io_full \<and> write_room io_full = Some 12
   \<and> 12 < length (json_dumps (workbook_json tiny_workbook))
   \<and> file_after (save_workbook_data io_full (workbook_json tiny_workbook) (Some ''[1]''))
       = Some (take 12 (json_dumps (workbook_json tiny_workbook)))"
proof -
  have a: "\<not> can_open_write io_locked"
    by (simp add: io_locked_def)
  have b: "can_open_write io_ok"
    "case write_room io_ok of None \<Rightarrow> True | Some k \<Rightarrow> length (json_dumps (workbook_json tiny_workbook)) \<le> k"
    "can_read io_ok"
    by (simp_all add: io_ok_def)
  have w: "wf_json (workbook_json tiny_workbook)"
    by (rule wf_workbook_json) (simp add: dict_keys_ok_def tiny_workbook_def)
  have c: "can_open_write io_full" "write_room io_full = Some 12"
    by (simp_all add: io_full_def)
  have d: "12 < length (json_dumps (workbook_json tiny_workbook))"
    by code_simp
  from save_outcomes [of io_locked "workbook_json tiny_workbook" "Some ''[1]''"]
    save_outcomes [of io_ok "workbook_json tiny_workbook" "Some ''[1]''" io_ok]
    save_outcomes [of io_full "workbook_json tiny_workbook" "Some ''[1]''" io_ok 12]
  show ?thesis
    using a b w c d by blast
qed

section \<open>Properties of ingestion\<close>

lemma cell_text_code: "(if notna v then py_str v else '''') = cell_text v"
  by (simp add: cell_text_def notna_def)

lemma stringify_row_result:
  assumes "stringify_row r cols row_data = Some out"
  shows "\<exists>vs. length vs = length cols
           \<and> (\<forall>c < length cols. series_get r (cols ! c) = Some (vs ! c))
           \<and> out = row_data @ map cell_text vs"
  using assms
proof (induction cols arbitrary: row_data)
  case Nil
  then show ?case by simp
next
  case (Cons col cols)
  from Cons.prems obtain v where v: "series_get r col = Some v"
    and rest: "stringify_row r cols (row_data @ [cell_text v]) = Some out"
    by (auto simp: cell_text_code split: option.splits)
  from Cons.IH [OF rest] obtain vs where vs: "length vs = length cols"
    "\<forall>c < length cols. series_get r (cols ! c) = Some (vs ! c)"
    "out = (row_data @ [cell_text v]) @ map cell_text vs"
    by blast
  have "\<forall>c < length (col # cols). series_get r ((col # cols) ! c) = Some ((v # vs) ! c)"
    using v vs(2) by (auto simp: nth_Cons split: nat.splits)
  with vs(1,3) show ?case
    by (intro exI [of _ "v # vs"]) simp
qed

lemma stringify_rows_result:
  assumes "stringify_rows cols rs sheet_data = Some out"
  shows "\<exists>new. length new = length rs
           \<and> (\<forall>i < length rs. stringify_row (rs ! i) cols [] = Some (new ! i))
           \<and> out = sheet_data @ new"
  using assms
proof (induction rs arbitrary: sheet_data)
  case Nil
  then show ?case by simp
next
  case (Cons r rs)
  from Cons.prems obtain row_data where r: "stringify_row r cols [] = Some row_data"
    and rest: "stringify_rows cols rs (sheet_data @ [row_data]) = Some out"
    by (auto split: option.splits)
  from Cons.IH [OF rest] obtain new where new: "length new = length rs"
    "\<forall>i < length rs. stringify_row (rs ! i) cols [] = Some (new ! i)"
    "out = (sheet_data @ [row_data]) @ new"
    by blast
  have "\<forall>i < length (r # rs). stringify_row ((r # rs) ! i) cols [] = Some ((row_data # new) ! i)"
    using r new(2) by (auto simp: nth_Cons split: nat.splits)
  with new(1,3) show ?case
    by (intro exI [of _ "row_data # new"]) simp
qed

lemma dict_set_new: "k \<notin> fst ` set d \<Longrightarrow> dict_set d k v = d @ [(k, v)]"
  by (induction d) auto

lemma process_sheets_result:
  assumes "process_sheets excel_data shs row_total = Some (out, n)"
    and "distinct (map fst shs @ map fst excel_data)"
  shows "\<exists>new. length new = length excel_data
           \<and> (\<forall>k < length excel_data.
                 stringify_rows (df_columns (snd (excel_data ! k))) (df_rows (snd (excel_data ! k))) []
                   = Some (new ! k))
           \<and> out = shs @ map (\<lambda>((sheet_name, df), sheet_data). (sheet_name, sheet_of df sheet_data))
                          (zip excel_data new)
           \<and> n = row_total + sum_list (map (\<lambda>(sheet_name, df). int (length (df_rows df))) excel_data)"
  using assms
proof (induction excel_data arbitrary: shs row_total)
  case Nil
  then show ?case by simp
next
  case (Cons e excel_data)
  obtain sheet_name df where e: "e = (sheet_name, df)"
    by (cases e)
  from Cons.prems(1) obtain sheet_data
    where sd: "stringify_rows (df_columns df) (df_rows df) [] = Some sheet_data"
      and rest: "process_sheets excel_data (dict_set shs sheet_name (sheet_of df sheet_data))
                   (row_total + int (length (df_rows df))) = Some (out, n)"
    by (auto simp: e sheet_of_def split: option.splits)
  have fresh: "dict_set shs sheet_name (sheet_of df sheet_data) = shs @ [(sheet_name, sheet_of df sheet_data)]"
    using Cons.prems(2) by (intro dict_set_new) (auto simp: e)
  have "distinct (map fst (shs @ [(sheet_name, sheet_of df sheet_data)]) @ map fst excel_data)"
    using Cons.prems(2) by (auto simp: e)
  from Cons.IH [OF rest [unfolded fresh] this] obtain new where new:
    "length new = length excel_data"
    "\<forall>k < length excel_data.
        stringify_rows (df_columns (snd (excel_data ! k))) (df_rows (snd (excel_data ! k))) [] = Some (new ! k)"
    "out = (shs @ [(sheet_name, sheet_of df sheet_data)])
        @ map (\<lambda>((sheet_name, df), sheet_data). (sheet_name, sheet_of df sheet_data)) (zip excel_data new)"
    "n = (row_total + int (length (df_rows df)))
        + sum_list (map (\<lambda>(sheet_name, df). int (length (df_rows df))) excel_data)"
    by blast
  have "\<forall>k < length (e # excel_data).
      stringify_rows (df_columns (snd ((e # excel_data) ! k))) (df_rows (snd ((e # excel_data) ! k))) []
        = Some ((sheet_data # new) ! k)"
    using sd new(2) by (auto simp: nth_Cons e split: nat.splits)
  with new(1,3,4) show ?case
    by (intro exI [of _ "sheet_data # new"]) (simp add: e)
qed

lemma process_excel_file_sheets:
  assumes "read_excel up = Some excel_data" and "dict_keys_ok excel_data"
    and "process_excel_file now up = Some wb"
  shows "\<exists>new. length new = length excel_data
           \<and> (\<forall>k < length excel_data.
                 stringify_rows (df_columns (snd (excel_data ! k))) (df_rows (snd (excel_data ! k))) []
                   = Some (new ! k))
           \<and> sheets wb = map (\<lambda>((sheet_name, df), sheet_data). (sheet_name, sheet_of df sheet_data))
                          (zip excel_data new)
           \<and> total_rows wb = sum_list (map (\<lambda>(sheet_name, df). int (length (df_rows df))) excel_data)
           \<and> upload_time wb = now \<and> filename wb = upload_name up \<and> file_size wb = upload_size up"
proof -
  from assms(1,3) obtain out n where ps: "process_sheets excel_data [] 0 = Some (out, n)"
    and wb: "wb = \<lparr>sheets = out, upload_time = now, filename = upload_name up,
                   file_size = upload_size up, total_rows = n\<rparr>"
    by (auto simp: process_excel_file_def split: option.splits)
  have "distinct (map fst [] @ map fst excel_data)"
    using assms(2) by (simp add: dict_keys_ok_def)
  from process_sheets_result [OF ps this] show ?thesis
    by (simp add: wb)
qed

text \<open>
  Claim C7. When the file is read and ingestion returns a workbook, the workbook has the
  sheets of the file in their order. Every sheet has the column names of its data frame,
  one row for each row of the frame, and in every row one cell for each column; the cell
  is the empty string where the frame's cell is missing and the default text of the
  frame's cell otherwise. Cells are strings by their type, so none is null. The row
  count of a sheet is the number of its rows, and \<open>total_rows\<close> is the sum of the row
  counts of the sheets.
\<close>

theorem ingestion_stringifies:
  assumes "read_excel up = Some excel_data" and "dict_keys_ok excel_data"
    and "process_excel_file now up = Some wb"
  shows "map fst (sheets wb) = map fst excel_data
       \<and> (\<forall>k < length excel_data.
            let df = snd (excel_data ! k); info = snd (sheets wb ! k)
            in columns info = df_columns df
               \<and> rows info = int (length (df_rows df))
               \<and> length (data info) = length (df_rows df)
               \<and> (\<forall>r < length (df_rows df).
                    length (data info ! r) = length (df_columns df)
                    \<and> (\<forall>c < length (df_columns df).
                         \<exists>v. series_get (df_rows df ! r) (df_columns df ! c) = Some v
                           \<and> data info ! r ! c = (if v = Cell_na then '''' else py_str v))))
       \<and> total_rows wb = sum_list (map (\<lambda>(sheet_name, info). rows info) (sheets wb))"
proof -
  from process_excel_file_sheets [OF assms] obtain new where len: "length new = length excel_data"
    and new: "\<And>k. k < length excel_data \<Longrightarrow>
        stringify_rows (df_columns (snd (excel_data ! k))) (df_rows (snd (excel_data ! k))) [] = Some (new ! k)"
    and sh: "sheets wb = map (\<lambda>((sheet_name, df), sheet_data). (sheet_name, sheet_of df sheet_data))
                          (zip excel_data new)"
    and tot: "total_rows wb = sum_list (map (\<lambda>(sheet_name, df). int (length (df_rows df))) excel_data)"
    by blast
  have names: "map fst (sheets wb) = map fst excel_data"
    unfolding sh using len by (intro nth_equalityI) (simp_all add: case_prod_unfold)
  have info: "snd (sheets wb ! k) = sheet_of (snd (excel_data ! k)) (new ! k)" if "k < length excel_data" for k
    unfolding sh using that len by (simp add: case_prod_unfold)
  have "map (\<lambda>(sheet_name, info). rows info) (sheets wb)
      = map (\<lambda>(sheet_name, df). int (length (df_rows df))) excel_data"
    unfolding sh using len by (intro nth_equalityI) (simp_all add: case_prod_unfold sheet_of_def)
  with tot have total: "total_rows wb = sum_list (map (\<lambda>(sheet_name, info). rows info) (sheets wb))"
    by simp
  have cells: "let df = snd (excel_data ! k); info = snd (sheets wb ! k)
            in columns info = df_columns df
               \<and> rows info = int (length (df_rows df))
               \<and> length (data info) = length (df_rows df)
               \<and> (\<forall>r < length (df_rows df).
                    length (data info ! r) = length (df_columns df)
                    \<and> (\<forall>c < length (df_columns df).
                         \<exists>v. series_get (df_rows df ! r) (df_columns df ! c) = Some v
                           \<and> data info ! r ! c = (if v = Cell_na then '''' else py_str v)))"
    if k: "k < length excel_data" for k
  proof -
    let ?df = "snd (excel_data ! k)"
    from stringify_rows_result [OF new [OF k]] have n1: "length (new ! k) = length (df_rows ?df)"
      and n2: "\<And>r. r < length (df_rows ?df) \<Longrightarrow>
          stringify_row (df_rows ?df ! r) (df_columns ?df) [] = Some (new ! k ! r)"
      by auto
    have "length (new ! k ! r) = length (df_columns ?df)
        \<and> (\<forall>c < length (df_columns ?df).
             \<exists>v. series_get (df_rows ?df ! r) (df_columns ?df ! c) = Some v
               \<and> new ! k ! r ! c = (if v = Cell_na then '''' else py_str v))"
      if r: "r < length (df_rows ?df)" for r
    proof -
      from stringify_row_result [OF n2 [OF r]] obtain vs where vs: "length vs = length (df_columns ?df)"
        "\<forall>c < length (df_columns ?df). series_get (df_rows ?df ! r) (df_columns ?df ! c) = Some (vs ! c)"
        "new ! k ! r = map cell_text vs"
        by auto
      then show ?thesis
        by (auto simp: cell_text_def)
    qed
    then show ?thesis
      using n1 by (simp add: info [OF k] sheet_of_def Let_def)
  qed
  from names cells total show ?thesis
    by blast
qed

theorem ingestion_stringifies_witness:
  "read_excel two_sheets_upload = Some two_sheets \<and> dict_keys_ok two_sheets
   \<and> process_excel_file ''2024-01-01 00:00:00'' two_sheets_upload = Some two_sheets_workbook
   \<and> map fst (sheets two_sheets_workbook) = map fst two_sheets
   \<and> total_rows two_sheets_workbook
       = sum_list (map (\<lambda>(sheet_name, info). rows info) (sheets two_sheets_workbook))"
proof -
  have h1: "read_excel two_sheets_upload = Some two_sheets"
    by (simp add: two_sheets_upload_def)
  have h2: "dict_keys_ok two_sheets"
    by (simp add: dict_keys_ok_def two_sheets_def)
  have h3: "process_excel_file ''2024-01-01 00:00:00'' two_sheets_upload = Some two_sheets_workbook"
    by code_simp
  from ingestion_stringifies [OF h1 h2 h3] show ?thesis
    using h1 h2 h3 by blast
qed

end
